theory Spec2Isabelle
  imports Complex_Main
begin

section \<open>Data model\<close>

text \<open>
  The board of \<^verbatim>\<open>index.tsx\<close> is an array of rows of cell values
  (\<^verbatim>\<open>type CellValue = 0 | 1 | 2\<close>, with the constants \<^verbatim>\<open>EMPTY = 0\<close>,
  \<^verbatim>\<open>PLAYER_BLACK = 1\<close>, \<^verbatim>\<open>PLAYER_WHITE = 2\<close>). Coordinates are JavaScript
  numbers that only ever hold integers; they are modelled as \<open>int\<close>, a pair
  \<open>(r, c)\<close> standing for the object \<^verbatim>\<open>{ r, c }\<close>.
\<close>

definition BOARD_SIZE :: int where
  "BOARD_SIZE = 15"

datatype CellValue = EMPTY | PLAYER_BLACK | PLAYER_WHITE

type_synonym BoardState = "CellValue list list"

type_synonym coord = "int \<times> int"

text \<open>
  What a read or a write outside the arrays does. Reading \<^verbatim>\<open>board[r]\<close> outside the
  rows gives \<^verbatim>\<open>undefined\<close>, and reading \<^verbatim>\<open>[c]\<close> of that throws a
  \<^verbatim>\<open>TypeError\<close>; reading a column outside a row gives \<^verbatim>\<open>undefined\<close>, which is a
  value (\<open>None\<close> below) that is \<^verbatim>\<open>===\<close> to no cell value. A write outside the
  columns of a row would grow the row; rows of that shape are not boards, so such a
  write is reported as \<open>RangeWrite\<close>.
\<close>

datatype fault = TypeError | RangeWrite

definition row_at :: "BoardState \<Rightarrow> int \<Rightarrow> CellValue list option" where
  "row_at board r = (if 0 \<le> r \<and> r < int (length board) then Some (board ! nat r) else None)"

definition cell_at :: "BoardState \<Rightarrow> int \<Rightarrow> int \<Rightarrow> fault + CellValue option" where
  "cell_at board r c =
     (case row_at board r of
        None \<Rightarrow> Inl TypeError
      | Some row \<Rightarrow> Inr (if 0 \<le> c \<and> c < int (length row) then Some (row ! nat c) else None))"

definition set_cell :: "BoardState \<Rightarrow> int \<Rightarrow> int \<Rightarrow> CellValue \<Rightarrow> fault + BoardState" where
  "set_cell board r c v =
     (case row_at board r of
        None \<Rightarrow> Inl TypeError
      | Some row \<Rightarrow>
          if 0 \<le> c \<and> c < int (length row)
          then Inr (board[nat r := row[nat c := v]])
          else Inl RangeWrite)"

definition wf_board :: "BoardState \<Rightarrow> bool" where
  "wf_board board \<longleftrightarrow> length board = 15 \<and> (\<forall>row \<in> set board. length row = 15)"

text \<open>A \<^verbatim>\<open>for\<close> loop over a list whose body may throw.\<close>

fun foldE :: "('a \<Rightarrow> 's \<Rightarrow> fault + 's) \<Rightarrow> 'a list \<Rightarrow> 's \<Rightarrow> fault + 's" where
  "foldE f [] s = Inr s"
| "foldE f (x # xs) s = (case f x s of Inl e \<Rightarrow> Inl e | Inr s' \<Rightarrow> foldE f xs s')"

section \<open>Rule engine\<close>

subsection \<open>checkLongLines\<close>

text \<open>
  The four entries of the constant array \<^verbatim>\<open>directions\<close>, named as the source's
  comments name them, with their \<^verbatim>\<open>[dx, dy]\<close>.
\<close>

datatype direction = Horizontal | Vertical | DiagonalDown | DiagonalUp

fun dx :: "direction \<Rightarrow> int" where
  "dx Horizontal = 0"
| "dx Vertical = 1"
| "dx DiagonalDown = 1"
| "dx DiagonalUp = 1"

fun dy :: "direction \<Rightarrow> int" where
  "dy Horizontal = 1"
| "dy Vertical = 0"
| "dy DiagonalDown = 1"
| "dy DiagonalUp = - 1"

definition directions :: "direction list" where
  "directions = [Horizontal, Vertical, DiagonalDown, DiagonalUp]"

text \<open>
  The two \<^verbatim>\<open>while (true)\<close> loops. The state is \<^verbatim>\<open>count\<close> and \<^verbatim>\<open>lineCells\<close>;
  \<open>i\<close> and \<open>j\<close> are the loop counters.
\<close>

function walk_forward ::
  "BoardState \<Rightarrow> CellValue \<Rightarrow> int \<Rightarrow> int \<Rightarrow> direction \<Rightarrow> int \<Rightarrow> int \<times> coord list
     \<Rightarrow> fault + int \<times> coord list" where
  "walk_forward board player lastRow lastCol d i (count, lineCells) =
     (if lastRow + dx d * i \<ge> 0 \<and> lastRow + dx d * i < BOARD_SIZE
         \<and> lastCol + dy d * i \<ge> 0 \<and> lastCol + dy d * i < BOARD_SIZE
      then (case cell_at board (lastRow + dx d * i) (lastCol + dy d * i) of
              Inl e \<Rightarrow> Inl e
            | Inr v \<Rightarrow>
                if v = Some player
                then walk_forward board player lastRow lastCol d (i + 1)
                       (count + 1, lineCells @ [(lastRow + dx d * i, lastCol + dy d * i)])
                else Inr (count, lineCells))
      else Inr (count, lineCells))"
  by pat_completeness auto
termination
  apply (relation "measure (\<lambda>(board, player, lastRow, lastCol, d, i, acc).
                  nat (BOARD_SIZE + \<bar>lastRow\<bar> + \<bar>lastCol\<bar> + 1 - i))")
   apply simp
  apply (case_tac d; simp add: BOARD_SIZE_def; linarith)
  done

function walk_backward ::
  "BoardState \<Rightarrow> CellValue \<Rightarrow> int \<Rightarrow> int \<Rightarrow> direction \<Rightarrow> int \<Rightarrow> int \<times> coord list
     \<Rightarrow> fault + int \<times> coord list" where
  "walk_backward board player lastRow lastCol d j (count, lineCells) =
     (if lastRow - dx d * j \<ge> 0 \<and> lastRow - dx d * j < BOARD_SIZE
         \<and> lastCol - dy d * j \<ge> 0 \<and> lastCol - dy d * j < BOARD_SIZE
      then (case cell_at board (lastRow - dx d * j) (lastCol - dy d * j) of
              Inl e \<Rightarrow> Inl e
            | Inr v \<Rightarrow>
                if v = Some player
                then walk_backward board player lastRow lastCol d (j + 1)
                       (count + 1, lineCells @ [(lastRow - dx d * j, lastCol - dy d * j)])
                else Inr (count, lineCells))
      else Inr (count, lineCells))"
  by pat_completeness auto
termination
  apply (relation "measure (\<lambda>(board, player, lastRow, lastCol, d, j, acc).
                  nat (BOARD_SIZE + \<bar>lastRow\<bar> + \<bar>lastCol\<bar> + 1 - j))")
   apply simp
  apply (case_tac d; simp add: BOARD_SIZE_def; linarith)
  done

text \<open>
  \<^verbatim>\<open>Array.from(new Set(keys))\<close>: a key is kept at its first occurrence. The key
  \<^verbatim>\<open>`${r},${c}`\<close> and its parse back to numbers are one-to-one on integer
  coordinates, so the keys are the coordinates themselves.
\<close>

definition uniqueStones :: "coord list \<Rightarrow> coord list" where
  "uniqueStones allStonesInLine =
     fold (\<lambda>s seen. if s \<in> set seen then seen else seen @ [s]) allStonesInLine []"

text \<open>The body of the loop over \<^verbatim>\<open>directions\<close>; the state is \<^verbatim>\<open>allStonesInLine\<close>.\<close>

definition line_in_direction ::
  "BoardState \<Rightarrow> int \<Rightarrow> int \<Rightarrow> CellValue \<Rightarrow> direction \<Rightarrow> coord list \<Rightarrow> fault + coord list" where
  "line_in_direction board lastRow lastCol player d allStonesInLine =
     (case walk_forward board player lastRow lastCol d 1 (1, [(lastRow, lastCol)]) of
        Inl e \<Rightarrow> Inl e
      | Inr fw \<Rightarrow>
          (case walk_backward board player lastRow lastCol d 1 fw of
             Inl e \<Rightarrow> Inl e
           | Inr (count, lineCells) \<Rightarrow>
               Inr (if count \<ge> 5 then allStonesInLine @ lineCells else allStonesInLine)))"

text \<open>The result \<open>None\<close> is \<^verbatim>\<open>null\<close>.\<close>

definition checkLongLines ::
  "BoardState \<Rightarrow> int \<Rightarrow> int \<Rightarrow> CellValue \<Rightarrow> fault + coord list option" where
  "checkLongLines board lastRow lastCol player =
     (case foldE (line_in_direction board lastRow lastCol player) directions [] of
        Inl e \<Rightarrow> Inl e
      | Inr allStonesInLine \<Rightarrow>
          Inr (if length (uniqueStones allStonesInLine) > 0
               then Some (uniqueStones allStonesInLine) else None))"

subsection \<open>isBoardFull and countStones\<close>

text \<open>The cells in the order of the two nested \<^verbatim>\<open>for\<close> loops over rows and columns.\<close>

definition all_cells :: "coord list" where
  "all_cells = concat (map (\<lambda>r. map (\<lambda>c. (r, c)) [0..BOARD_SIZE - 1]) [0..BOARD_SIZE - 1])"

fun full_scan :: "BoardState \<Rightarrow> coord list \<Rightarrow> fault + bool" where
  "full_scan board [] = Inr True"
| "full_scan board ((r, c) # rest) =
     (case cell_at board r c of
        Inl e \<Rightarrow> Inl e
      | Inr v \<Rightarrow> if v = Some EMPTY then Inr False else full_scan board rest)"

definition isBoardFull :: "BoardState \<Rightarrow> fault + bool" where
  "isBoardFull board = full_scan board all_cells"

text \<open>The result is the pair \<^verbatim>\<open>{ black, white }\<close>.\<close>

definition countStones :: "BoardState \<Rightarrow> int \<times> int" where
  "countStones board =
     fold (\<lambda>row. fold (\<lambda>cell (black, white).
             (if cell = PLAYER_BLACK then black + 1 else black,
              if cell = PLAYER_WHITE then white + 1 else white)) row)
          board (0, 0)"

section \<open>Strategy tier\<close>

subsection \<open>getEmptyNeighbors\<close>

text \<open>
  The state of the loops is the key set \<^verbatim>\<open>neighbors\<close> and the array \<^verbatim>\<open>moves\<close>.
  \<open>neighbor_visit\<close> is the body of the two inner loops, at \<open>(nr, nc)\<close>;
  \<open>around_cell\<close> is the body of the two outer loops, at \<open>(r, c)\<close>.
\<close>

definition neighbor_visit ::
  "BoardState \<Rightarrow> int \<Rightarrow> int \<Rightarrow> coord set \<times> coord list \<Rightarrow> fault + coord set \<times> coord list" where
  "neighbor_visit board nr nc st =
     (case st of (neighbors, moves) \<Rightarrow>
        if nr \<ge> 0 \<and> nr < BOARD_SIZE \<and> nc \<ge> 0 \<and> nc < BOARD_SIZE
        then (case cell_at board nr nc of
                Inl e \<Rightarrow> Inl e
              | Inr v \<Rightarrow>
                  if v = Some EMPTY
                  then (if (nr, nc) \<notin> neighbors
                        then Inr (insert (nr, nc) neighbors, moves @ [(nr, nc)])
                        else Inr st)
                  else Inr st)
        else Inr st)"

definition around_cell ::
  "BoardState \<Rightarrow> int \<Rightarrow> int \<Rightarrow> int \<Rightarrow> coord set \<times> coord list \<Rightarrow> fault + coord set \<times> coord list" where
  "around_cell board distance r c st =
     (case cell_at board r c of
        Inl e \<Rightarrow> Inl e
      | Inr v \<Rightarrow>
          if v \<noteq> Some EMPTY
          then foldE (\<lambda>dr. foldE (\<lambda>dc. neighbor_visit board (r + dr) (c + dc))
                               [- distance..distance])
                 [- distance..distance] st
          else Inr st)"

definition getEmptyNeighbors :: "BoardState \<Rightarrow> int \<Rightarrow> fault + coord list" where
  "getEmptyNeighbors board distance =
     (case foldE (\<lambda>r. foldE (\<lambda>c. around_cell board distance r c) [0..BOARD_SIZE - 1])
             [0..BOARD_SIZE - 1] ({}, []) of
        Inl e \<Rightarrow> Inl e
      | Inr (neighbors, moves) \<Rightarrow>
          Inr (if length moves = 0 then [(BOARD_SIZE div 2, BOARD_SIZE div 2)] else moves))"

subsection \<open>Level 1: getEasyMove\<close>

text \<open>
  \<^verbatim>\<open>Math.random()\<close> is an input: \<open>rnd k\<close> is the value of the \<open>k\<close>-th call made
  during one strategy invocation, a number in \<open>[0, 1)\<close>. Reading \<^verbatim>\<open>moves[randomIdx]\<close>
  outside the array gives \<^verbatim>\<open>undefined\<close>, the result \<open>None\<close>.
\<close>

definition getEasyMove :: "BoardState \<Rightarrow> CellValue \<Rightarrow> (nat \<Rightarrow> real) \<Rightarrow> fault + coord option" where
  "getEasyMove board aiPlayer rnd =
     (case getEmptyNeighbors board 1 of
        Inl e \<Rightarrow> Inl e
      | Inr moves \<Rightarrow>
          if length moves = 0 then Inr (Some (7, 7))
          else (let randomIdx = \<lfloor>rnd 0 * real (length moves)\<rfloor>
                in Inr (if 0 \<le> randomIdx \<and> randomIdx < int (length moves)
                        then Some (moves ! nat randomIdx) else None)))"

subsection \<open>Level 2: getMediumMove\<close>

text \<open>
  The two \<^verbatim>\<open>for (k = 1; k < 5; k++)\<close> loops of \<^verbatim>\<open>evaluate\<close>, with their
  \<^verbatim>\<open>break\<close>s; the state is \<^verbatim>\<open>countAI\<close> and \<^verbatim>\<open>openEndsAI\<close>. A position outside the
  board is skipped and the loop goes on.
\<close>

fun probe_forward ::
  "BoardState \<Rightarrow> CellValue \<Rightarrow> int \<Rightarrow> int \<Rightarrow> direction \<Rightarrow> int list \<Rightarrow> int \<times> int \<Rightarrow> fault + int \<times> int" where
  "probe_forward currentBoard player r c d [] st = Inr st"
| "probe_forward currentBoard player r c d (k # ks) (countAI, openEndsAI) =
     (if r + dx d * k \<ge> 0 \<and> r + dx d * k < 15 \<and> c + dy d * k \<ge> 0 \<and> c + dy d * k < 15
      then (case cell_at currentBoard (r + dx d * k) (c + dy d * k) of
              Inl e \<Rightarrow> Inl e
            | Inr v \<Rightarrow>
                if v = Some player
                then probe_forward currentBoard player r c d ks (countAI + 1, openEndsAI)
                else if v = Some EMPTY then Inr (countAI, openEndsAI + 1)
                else Inr (countAI, openEndsAI))
      else probe_forward currentBoard player r c d ks (countAI, openEndsAI))"

fun probe_backward ::
  "BoardState \<Rightarrow> CellValue \<Rightarrow> int \<Rightarrow> int \<Rightarrow> direction \<Rightarrow> int list \<Rightarrow> int \<times> int \<Rightarrow> fault + int \<times> int" where
  "probe_backward currentBoard player r c d [] st = Inr st"
| "probe_backward currentBoard player r c d (k # ks) (countAI, openEndsAI) =
     (if r - dx d * k \<ge> 0 \<and> r - dx d * k < 15 \<and> c - dy d * k \<ge> 0 \<and> c - dy d * k < 15
      then (case cell_at currentBoard (r - dx d * k) (c - dy d * k) of
              Inl e \<Rightarrow> Inl e
            | Inr v \<Rightarrow>
                if v = Some player
                then probe_backward currentBoard player r c d ks (countAI + 1, openEndsAI)
                else if v = Some EMPTY then Inr (countAI, openEndsAI + 1)
                else Inr (countAI, openEndsAI))
      else probe_backward currentBoard player r c d ks (countAI, openEndsAI))"

text \<open>The body of the loop over the directions in \<^verbatim>\<open>evaluate\<close>; the state is \<^verbatim>\<open>score\<close>.\<close>

definition evaluate_direction ::
  "BoardState \<Rightarrow> CellValue \<Rightarrow> int \<Rightarrow> int \<Rightarrow> direction \<Rightarrow> real \<Rightarrow> fault + real" where
  "evaluate_direction currentBoard player r c d score =
     (case probe_forward currentBoard player r c d [1, 2, 3, 4] (0, 0) of
        Inl e \<Rightarrow> Inl e
      | Inr fw \<Rightarrow>
          (case probe_backward currentBoard player r c d [1, 2, 3, 4] fw of
             Inl e \<Rightarrow> Inl e
           | Inr (countAI, openEndsAI) \<Rightarrow>
               Inr ((if countAI = 3 \<and> openEndsAI > 0 then score + 50 else score)
                    + (if countAI = 2 \<and> openEndsAI > 0 then 10 else 0))))"

text \<open>
  \<^verbatim>\<open>evaluate\<close> calls \<^verbatim>\<open>Math.random()\<close> only when the placement removes nothing, so
  it takes the number \<open>n\<close> of calls made so far and returns it updated.
\<close>

definition evaluate ::
  "int \<Rightarrow> int \<Rightarrow> CellValue \<Rightarrow> BoardState \<Rightarrow> (nat \<Rightarrow> real) \<Rightarrow> nat \<Rightarrow> fault + real \<times> nat" where
  "evaluate r c player currentBoard rnd n =
     (case checkLongLines currentBoard r c player of
        Inl e \<Rightarrow> Inl e
      | Inr (Some stonesExploded) \<Rightarrow> Inr (- 1000 * real (length stonesExploded), n)
      | Inr None \<Rightarrow>
          (case foldE (evaluate_direction currentBoard player r c) directions 0 of
             Inl e \<Rightarrow> Inl e
           | Inr score \<Rightarrow> Inr (score + rnd n * 5, Suc n)))"

text \<open>
  The body of the loop over \<^verbatim>\<open>moves\<close>. \<^verbatim>\<open>bestScore\<close> starts at \<^verbatim>\<open>-Infinity\<close>,
  written \<open>None\<close>, below every score; \<^verbatim>\<open>bestMove\<close> starts at \<^verbatim>\<open>moves[0]\<close>, which is
  \<^verbatim>\<open>undefined\<close> (\<open>None\<close>) for an empty array.
\<close>

definition medium_step ::
  "BoardState \<Rightarrow> CellValue \<Rightarrow> (nat \<Rightarrow> real) \<Rightarrow> coord
     \<Rightarrow> real option \<times> coord option \<times> nat \<Rightarrow> fault + real option \<times> coord option \<times> nat" where
  "medium_step board aiPlayer rnd move st =
     (case st of (bestScore, bestMove, n) \<Rightarrow>
        (case set_cell board (fst move) (snd move) aiPlayer of
           Inl e \<Rightarrow> Inl e
         | Inr tempBoard \<Rightarrow>
             (case evaluate (fst move) (snd move) aiPlayer tempBoard rnd n of
                Inl e \<Rightarrow> Inl e
              | Inr (score, n') \<Rightarrow>
                  if (case bestScore of None \<Rightarrow> True | Some best \<Rightarrow> score > best)
                  then Inr (Some score, Some move, n')
                  else Inr (bestScore, bestMove, n'))))"

definition getMediumMove :: "BoardState \<Rightarrow> CellValue \<Rightarrow> (nat \<Rightarrow> real) \<Rightarrow> fault + coord option" where
  "getMediumMove board aiPlayer rnd =
     (case getEmptyNeighbors board 1 of
        Inl e \<Rightarrow> Inl e
      | Inr moves \<Rightarrow>
          (case foldE (medium_step board aiPlayer rnd) moves
                  (None, (case moves of [] \<Rightarrow> None | m # _ \<Rightarrow> Some m), 0) of
             Inl e \<Rightarrow> Inl e
           | Inr (bestScore, bestMove, n) \<Rightarrow> Inr bestMove))"

subsection \<open>Level 3: getSuperStrongMove\<close>

text \<open>The body of the first loop: a candidate is the pair \<^verbatim>\<open>{ move, score }\<close>.\<close>

definition strong_candidate ::
  "BoardState \<Rightarrow> CellValue \<Rightarrow> coord \<Rightarrow> (coord \<times> real) list \<Rightarrow> fault + (coord \<times> real) list" where
  "strong_candidate board aiPlayer move candidates =
     (case set_cell board (fst move) (snd move) aiPlayer of
        Inl e \<Rightarrow> Inl e
      | Inr tempBoard \<Rightarrow>
          (case checkLongLines tempBoard (fst move) (snd move) aiPlayer of
             Inl e \<Rightarrow> Inl e
           | Inr (Some exploded) \<Rightarrow>
               Inr (candidates @ [(move, - 10000 * real (length exploded))])
           | Inr None \<Rightarrow> Inr (candidates @ [(move, 0)])))"

text \<open>
  The test \<^verbatim>\<open>r+dx < 15 && r+dx >= 0 && tempBoard[r+dx][c+dy] === aiPlayer\<close>, at the
  row \<open>r'\<close> and the column \<open>c'\<close>: the row is checked, the column is not.
\<close>

definition adjacent_own :: "BoardState \<Rightarrow> int \<Rightarrow> int \<Rightarrow> CellValue \<Rightarrow> fault + bool" where
  "adjacent_own tempBoard r' c' aiPlayer =
     (if r' < 15 \<and> r' \<ge> 0
      then (case cell_at tempBoard r' c' of
              Inl e \<Rightarrow> Inl e
            | Inr v \<Rightarrow> Inr (v = Some aiPlayer))
      else Inr False)"

text \<open>The body of the loop over the directions; the state is \<^verbatim>\<open>moveScore\<close>.\<close>

definition strong_direction ::
  "BoardState \<Rightarrow> int \<Rightarrow> int \<Rightarrow> CellValue \<Rightarrow> direction \<Rightarrow> real \<Rightarrow> fault + real" where
  "strong_direction tempBoard r c aiPlayer d moveScore =
     (case adjacent_own tempBoard (r + dx d) (c + dy d) aiPlayer of
        Inl e \<Rightarrow> Inl e
      | Inr ahead \<Rightarrow>
          (case adjacent_own tempBoard (r - dx d) (c - dy d) aiPlayer of
             Inl e \<Rightarrow> Inl e
           | Inr behind \<Rightarrow>
               (let lineCount = (1 :: int) + (if ahead then 1 else 0) + (if behind then 1 else 0)
                in Inr (moveScore
                        - (if lineCount = 3 then 50 else 0)
                        - (if lineCount = 4 then 200 else 0)
                        + (if lineCount = 2 then 10 else 0)))))"

text \<open>The body of the two loops that count the liberties.\<close>

definition liberty_visit :: "BoardState \<Rightarrow> int \<Rightarrow> int \<Rightarrow> int \<Rightarrow> int \<Rightarrow> int \<Rightarrow> fault + int" where
  "liberty_visit tempBoard r c dr dc liberties =
     (if dr = 0 \<and> dc = 0 then Inr liberties
      else if r + dr \<ge> 0 \<and> r + dr < 15 \<and> c + dc \<ge> 0 \<and> c + dc < 15
      then (case cell_at tempBoard (r + dr) (c + dc) of
              Inl e \<Rightarrow> Inl e
            | Inr v \<Rightarrow> Inr (if v = Some EMPTY then liberties + 1 else liberties))
      else Inr liberties)"

text \<open>
  The body of the second loop, which rewrites \<^verbatim>\<open>candidates[i].score\<close>; the state is
  the candidates rewritten so far and the number of \<^verbatim>\<open>Math.random()\<close> calls made.
\<close>

definition strong_refine ::
  "BoardState \<Rightarrow> CellValue \<Rightarrow> (nat \<Rightarrow> real) \<Rightarrow> coord \<times> real
     \<Rightarrow> (coord \<times> real) list \<times> nat \<Rightarrow> fault + (coord \<times> real) list \<times> nat" where
  "strong_refine board aiPlayer rnd cand st =
     (case st of (done, n) \<Rightarrow>
        if snd cand < - 5000 then Inr (done @ [cand], n)
        else (case set_cell board (fst (fst cand)) (snd (fst cand)) aiPlayer of
                Inl e \<Rightarrow> Inl e
              | Inr tempBoard \<Rightarrow>
                  (case foldE (strong_direction tempBoard (fst (fst cand)) (snd (fst cand)) aiPlayer)
                          directions 0 of
                     Inl e \<Rightarrow> Inl e
                   | Inr moveScore \<Rightarrow>
                       (case foldE (\<lambda>dr. foldE (\<lambda>dc. liberty_visit tempBoard
                                        (fst (fst cand)) (snd (fst cand)) dr dc) [- 1..1])
                               [- 1..1] 0 of
                          Inl e \<Rightarrow> Inl e
                        | Inr liberties \<Rightarrow>
                            Inr (done @ [(fst cand,
                                   snd cand + ((moveScore + real_of_int liberties * 5) + rnd n * 2))],
                                 Suc n)))))"

text \<open>
  \<^verbatim>\<open>candidates.sort((a, b) => b.score - a.score)\<close> is a stable sort by falling score,
  as \<open>sort_key\<close> on the negated score is. The result is
  \<^verbatim>\<open>candidates[0]?.move || { r: 7, c: 7 }\<close>.
\<close>

definition getSuperStrongMove :: "BoardState \<Rightarrow> CellValue \<Rightarrow> (nat \<Rightarrow> real) \<Rightarrow> fault + coord option" where
  "getSuperStrongMove board aiPlayer rnd =
     (case getEmptyNeighbors board 1 of
        Inl e \<Rightarrow> Inl e
      | Inr moves \<Rightarrow>
          (case foldE (strong_candidate board aiPlayer) moves [] of
             Inl e \<Rightarrow> Inl e
           | Inr candidates \<Rightarrow>
               (case foldE (strong_refine board aiPlayer rnd) candidates ([], 0) of
                  Inl e \<Rightarrow> Inl e
                | Inr (scored, n) \<Rightarrow>
                    Inr (case sort_key (\<lambda>cand. - snd cand) scored of
                           [] \<Rightarrow> Some (7, 7)
                         | best # _ \<Rightarrow> Some (fst best)))))"

section \<open>Turn and session controller\<close>

datatype GameMode = PVP | PVE | ONLINE

text \<open>
  The verdict \<^verbatim>\<open>{ winner, reason }\<close>. The winner is the display name of the first
  seat (\<^verbatim>\<open>p1Name\<close>), of the second seat (\<^verbatim>\<open>p2Name\<close>), or the draw text; the reason is
  one of four texts: the dominant win, the higher score, equal scores with the named
  seat holding more stones by the given difference, and equal scores and stones.
\<close>

datatype winner = Player1 | Player2 | Draw

datatype reason = Dominant_win | Higher_score | More_stones winner int | Score_and_stones_equal

definition getGameResult ::
  "int \<times> int \<Rightarrow> BoardState \<Rightarrow> CellValue \<Rightarrow> GameMode \<Rightarrow> winner \<times> reason" where
  "getGameResult currentScores finalBoard currentHumanColor mode =
     (let sP1 = fst currentScores; sP2 = snd currentScores in
      if sP1 > sP2 then (Player1, Higher_score)
      else if sP2 > sP1 then (Player2, Higher_score)
      else (case countStones finalBoard of (black, white) \<Rightarrow>
        (let p1Stones = (if currentHumanColor = PLAYER_BLACK then black else white);
             p2Stones = (if currentHumanColor = PLAYER_BLACK then white else black)
         in if p1Stones > p2Stones then (Player2, More_stones Player1 (p1Stones - p2Stones))
            else if p2Stones > p1Stones then (Player1, More_stones Player2 (p2Stones - p1Stones))
            else (Draw, Score_and_stones_equal))))"

text \<open>
  \<^verbatim>\<open>processTurn\<close> is memoised by \<^verbatim>\<open>useCallback\<close> on \<^verbatim>\<open>[gameMode]\<close>: the function in use
  is the one created in the render in which \<^verbatim>\<open>gameMode\<close> last changed (or in the first
  render). That function closes over the \<^verbatim>\<open>gameMode\<close> of its render and over the
  \<^verbatim>\<open>makeAiMove\<close> of its render, which closes over the \<^verbatim>\<open>difficulty\<close> of that render and
  calls that same \<^verbatim>\<open>processTurn\<close>. A closure is this pair: the game mode and the
  difficulty it has captured.
\<close>

type_synonym closure = "GameMode \<times> string"

text \<open>
  The React state of \<^verbatim>\<open>App\<close> that the controller reads and writes. \<open>scores\<close> is the
  pair \<^verbatim>\<open>{ p1, p2 }\<close>. \<open>capturedDifficulty\<close> is no React state: it is the difficulty
  captured by the \<^verbatim>\<open>processTurn\<close> in use, whose captured game mode is \<open>gameMode\<close>
  itself. \<open>aiTimers\<close> holds the \<^verbatim>\<open>makeAiMove\<close> calls that \<^verbatim>\<open>setTimeout\<close> has scheduled and
  that have not run yet: the closure of the \<^verbatim>\<open>processTurn\<close> that scheduled the call, and the
  arguments board, AI colour, human colour, AI score, human score, turn count. Nothing in
  the source cancels such a timer. The two timers that only clear \<^verbatim>\<open>removedStones\<close> and
  \<^verbatim>\<open>showSwapAlert\<close> are display matters and are left out.
\<close>

type_synonym ai_call =
  "closure \<times> BoardState \<times> CellValue \<times> CellValue \<times> int \<times> int \<times> int"

record session =
  board :: BoardState
  scores :: "int \<times> int"
  currentPlayer :: CellValue
  humanColor :: CellValue
  turnCount :: int
  isGameOver :: bool
  finalResult :: "(winner \<times> reason) option"
  gameMode :: GameMode
  difficulty :: string
  capturedDifficulty :: string
  isAiThinking :: bool
  lastMove :: "coord option"
  showSwapAlert :: bool
  removedStones :: "coord list"
  aiTimers :: "ai_call list"

definition empty_board :: BoardState where
  "empty_board = replicate (nat BOARD_SIZE) (replicate (nat BOARD_SIZE) EMPTY)"

definition initial_session :: session where
  "initial_session =
     \<lparr> board = empty_board, scores = (0, 0), currentPlayer = PLAYER_BLACK,
       humanColor = PLAYER_BLACK, turnCount = 0, isGameOver = False, finalResult = None,
       gameMode = PVE, difficulty = ''EASY'', capturedDifficulty = ''EASY'',
       isAiThinking = False, lastMove = None,
       showSwapAlert = False, removedStones = [], aiTimers = [] \<rparr>"

definition resetGame :: "session \<Rightarrow> session" where
  "resetGame s =
     s\<lparr> board := empty_board, currentPlayer := PLAYER_BLACK, humanColor := PLAYER_BLACK,
        turnCount := 0, scores := (0, 0), isGameOver := False, finalResult := None,
        lastMove := None, isAiThinking := False, showSwapAlert := False,
        removedStones := [] \<rparr>"

subsection \<open>processTurn\<close>

text \<open>
  The point attribution. \<^verbatim>\<open>Math.floor(currentTurnBase / 30)\<close> is \<open>div\<close>; the tests
  \<^verbatim>\<open>x % 2 === 0\<close> and \<^verbatim>\<open>x % 30 === 0\<close> hold for the same integers as \<open>mod\<close> being
  \<open>0\<close>, also for negative ones.
\<close>

definition award :: "CellValue \<Rightarrow> int \<Rightarrow> int \<Rightarrow> int \<times> int \<Rightarrow> int \<times> int" where
  "award playerWhoMoved currentTurnBase points currentScores =
     (let cycle = currentTurnBase div 30;
          p1IsBlack = (cycle mod 2 = 0);
          isP1 = (if p1IsBlack then playerWhoMoved = PLAYER_BLACK
                  else playerWhoMoved = PLAYER_WHITE)
      in if isP1 then (fst currentScores, snd currentScores + points)
         else (fst currentScores + points, snd currentScores))"

text \<open>
  The second source file attributes the points otherwise: by comparing the mover's
  colour with \<^verbatim>\<open>currentHumanColor\<close>.
\<close>

definition award_variant :: "CellValue \<Rightarrow> CellValue \<Rightarrow> int \<Rightarrow> int \<times> int \<Rightarrow> int \<times> int" where
  "award_variant playerWhoMoved currentHumanColor points currentScores =
     (let isP1Move = (playerWhoMoved = currentHumanColor)
      in if isP1Move then (fst currentScores, snd currentScores + points)
         else (fst currentScores + points, snd currentScores))"

definition clear_stones :: "BoardState \<Rightarrow> coord list \<Rightarrow> fault + BoardState" where
  "clear_stones newBoard stonesToExplode =
     foldE (\<lambda>cell tempBoard. set_cell tempBoard (fst cell) (snd cell) EMPTY)
       stonesToExplode newBoard"

text \<open>
  The block run when \<^verbatim>\<open>stonesToExplode\<close> is not \<^verbatim>\<open>null\<close> and not empty. The result
  is \<^verbatim>\<open>currentScores\<close>, \<^verbatim>\<open>updatedBoard\<close> and the session with \<^verbatim>\<open>removedStones\<close> set.
\<close>

definition explosion ::
  "session \<Rightarrow> BoardState \<Rightarrow> CellValue \<Rightarrow> int \<times> int \<Rightarrow> int \<Rightarrow> coord list option
     \<Rightarrow> fault + (int \<times> int) \<times> BoardState \<times> session" where
  "explosion s newBoard playerWhoMoved baseScores currentTurnBase stonesToExplode =
     (case stonesToExplode of
        None \<Rightarrow> Inr (baseScores, newBoard, s)
      | Some stones \<Rightarrow>
          if length stones > 0
          then (case clear_stones newBoard stones of
                  Inl e \<Rightarrow> Inl e
                | Inr tempBoard \<Rightarrow>
                    Inr (award playerWhoMoved currentTurnBase (int (length stones)) baseScores,
                         tempBoard, s\<lparr>removedStones := stones\<rparr>))
          else Inr (baseScores, newBoard, s))"

text \<open>The part of \<^verbatim>\<open>processTurn\<close> after the two termination checks.\<close>

definition next_turn ::
  "closure \<Rightarrow> session \<Rightarrow> BoardState \<Rightarrow> CellValue \<Rightarrow> CellValue \<Rightarrow> int \<times> int \<Rightarrow> int
     \<Rightarrow> fault + session" where
  "next_turn cl s updatedBoard playerWhoMoved currentHumanColor currentScores currentTurnBase =
     (let nextTurnCount = currentTurnBase + 1;
          nextPlayerColor = (if playerWhoMoved = PLAYER_BLACK then PLAYER_WHITE else PLAYER_BLACK);
          swap = (nextTurnCount > 0 \<and> nextTurnCount mod 30 = 0);
          nextHumanColor =
            (if swap
             then (if currentHumanColor = PLAYER_BLACK then PLAYER_WHITE else PLAYER_BLACK)
             else currentHumanColor);
          s1 = s\<lparr>turnCount := nextTurnCount\<rparr>;
          s2 = (if swap then s1\<lparr>humanColor := nextHumanColor, showSwapAlert := True\<rparr> else s1);
          s3 = s2\<lparr>currentPlayer := nextPlayerColor\<rparr>
      in if fst cl = PVE \<and> nextPlayerColor \<noteq> nextHumanColor
         then (case isBoardFull updatedBoard of
                 Inl e \<Rightarrow> Inl e
               | Inr full \<Rightarrow>
                   if \<not> full
                   then Inr (s3\<lparr>isAiThinking := True,
                                aiTimers := aiTimers s3 @
                                  [(cl, updatedBoard, nextPlayerColor, nextHumanColor,
                                    snd currentScores, fst currentScores, nextTurnCount)]\<rparr>)
                   else Inr (s3\<lparr>isAiThinking := False\<rparr>))
         else Inr (s3\<lparr>isAiThinking := False\<rparr>))"

text \<open>
  \<^verbatim>\<open>processTurn\<close> of \<^verbatim>\<open>index.tsx\<close>. The first argument is the closure of the function
  that runs: its \<^verbatim>\<open>gameMode\<close>, and the difficulty of the \<^verbatim>\<open>makeAiMove\<close> it schedules. The
  session argument stands for the state the setters write to. A result \<open>Inl\<close> is an
  exception leaving the callback.
\<close>

definition processTurn ::
  "closure \<Rightarrow> session \<Rightarrow> BoardState \<Rightarrow> int \<Rightarrow> int \<Rightarrow> CellValue \<Rightarrow> CellValue \<Rightarrow> int \<times> int
     \<Rightarrow> int \<Rightarrow> fault + session" where
  "processTurn cl s newBoard r c playerWhoMoved currentHumanColor baseScores currentTurnBase =
     (case checkLongLines newBoard r c playerWhoMoved of
        Inl e \<Rightarrow> Inl e
      | Inr stonesToExplode \<Rightarrow>
          (case explosion s newBoard playerWhoMoved baseScores currentTurnBase stonesToExplode of
             Inl e \<Rightarrow> Inl e
           | Inr (currentScores, updatedBoard, s0) \<Rightarrow>
               (let s1 = s0\<lparr>scores := currentScores, board := updatedBoard\<rparr> in
                if fst currentScores \<ge> 200 \<and> fst currentScores - snd currentScores \<ge> 100
                then Inr (s1\<lparr>finalResult := Some (Player1, Dominant_win), isGameOver := True\<rparr>)
                else if snd currentScores \<ge> 200 \<and> snd currentScores - fst currentScores \<ge> 100
                then Inr (s1\<lparr>finalResult := Some (Player2, Dominant_win), isGameOver := True\<rparr>)
                else (case isBoardFull updatedBoard of
                        Inl e \<Rightarrow> Inl e
                      | Inr full \<Rightarrow>
                          if full
                          then Inr (s1\<lparr>finalResult :=
                                         Some (getGameResult currentScores updatedBoard
                                                 currentHumanColor (fst cl)),
                                       isGameOver := True\<rparr>)
                          else next_turn cl s1 updatedBoard playerWhoMoved currentHumanColor
                                 currentScores currentTurnBase))))"

subsection \<open>Moves: local click, remote message, automated move\<close>

text \<open>
  The closure of the \<^verbatim>\<open>processTurn\<close> that the handlers of the current render call.
\<close>

definition current_closure :: "session \<Rightarrow> closure" where
  "current_closure s = (gameMode s, capturedDifficulty s)"

text \<open>\<^verbatim>\<open>handleCellClick\<close>; sending the move to the peer does not touch the session.\<close>

definition handleCellClick :: "session \<Rightarrow> int \<Rightarrow> int \<Rightarrow> fault + session" where
  "handleCellClick s r c =
     (if isGameOver s \<or> isAiThinking s then Inr s
      else if gameMode s = PVE \<and> currentPlayer s \<noteq> humanColor s then Inr s
      else if gameMode s = ONLINE \<and> currentPlayer s \<noteq> humanColor s then Inr s
      else (case cell_at (board s) r c of
              Inl e \<Rightarrow> Inl e
            | Inr v \<Rightarrow>
                if v \<noteq> Some EMPTY then Inr s
                else (case set_cell (board s) r c (currentPlayer s) of
                        Inl e \<Rightarrow> Inl e
                      | Inr newBoard \<Rightarrow>
                          processTurn (current_closure s)
                            (s\<lparr>board := newBoard, lastMove := Some (r, c)\<rparr>)
                            newBoard r c (currentPlayer s) (humanColor s) (scores s)
                            (turnCount s))))"

text \<open>
  \<^verbatim>\<open>handleRemoteMove\<close> stores the received \<^verbatim>\<open>{ r, c }\<close> in \<^verbatim>\<open>lastRemoteMove\<close>, and the
  effect on \<^verbatim>\<open>lastRemoteMove\<close> processes it and sets it back to \<^verbatim>\<open>null\<close>; this is the
  two together.
\<close>

definition handleRemoteMove :: "session \<Rightarrow> int \<Rightarrow> int \<Rightarrow> fault + session" where
  "handleRemoteMove s r c =
     (case cell_at (board s) r c of
        Inl e \<Rightarrow> Inl e
      | Inr v \<Rightarrow>
          if v = Some EMPTY
          then (case set_cell (board s) r c (currentPlayer s) of
                  Inl e \<Rightarrow> Inl e
                | Inr newBoard \<Rightarrow>
                    processTurn (current_closure s)
                      (s\<lparr>board := newBoard, lastMove := Some (r, c)\<rparr>)
                      newBoard r c (currentPlayer s) (humanColor s) (scores s) (turnCount s))
          else Inr s)"

text \<open>
  The strategy selection at the head of \<^verbatim>\<open>makeAiMove\<close> in \<^verbatim>\<open>index.tsx\<close>. The
  difficulty is the string that the comparisons \<^verbatim>\<open>difficulty === 'EASY'\<close> read; the
  delays before the two stronger tiers are not modelled.
\<close>

definition select_move ::
  "string \<Rightarrow> BoardState \<Rightarrow> CellValue \<Rightarrow> (nat \<Rightarrow> real) \<Rightarrow> fault + coord option" where
  "select_move diff currentBoard aiPlayer rnd =
     (if diff = ''EASY'' then getEasyMove currentBoard aiPlayer rnd
      else if diff = ''MEDIUM'' then getMediumMove currentBoard aiPlayer rnd
      else getSuperStrongMove currentBoard aiPlayer rnd)"

text \<open>
  \<^verbatim>\<open>makeAiMove\<close>, run by a timer. The function that runs is the one the scheduling
  \<^verbatim>\<open>processTurn\<close> closed over: its \<^verbatim>\<open>difficulty\<close> and the \<^verbatim>\<open>processTurn\<close> it calls are those
  of the closure carried by the call, not those of the session at the time the timer
  fires. It reads nothing else of the session.
\<close>

definition makeAiMove :: "session \<Rightarrow> ai_call \<Rightarrow> (nat \<Rightarrow> real) \<Rightarrow> fault + session" where
  "makeAiMove s call rnd =
     (case call of
        (cl, currentBoard, aiPlayer, currentHumanColor, aiScore, humanScore, currentTurnCount) \<Rightarrow>
          (case select_move (snd cl) currentBoard aiPlayer rnd of
             Inl e \<Rightarrow> Inl e
           | Inr None \<Rightarrow> Inr (s\<lparr>isGameOver := True\<rparr>)
           | Inr (Some move) \<Rightarrow>
               (case set_cell currentBoard (fst move) (snd move) aiPlayer of
                  Inl e \<Rightarrow> Inl e
                | Inr nextBoard \<Rightarrow>
                    processTurn cl (s\<lparr>board := nextBoard, lastMove := Some move\<rparr>)
                      nextBoard (fst move) (snd move) aiPlayer currentHumanColor
                      (humanScore, aiScore) currentTurnCount)))"

text \<open>The oldest scheduled \<^verbatim>\<open>makeAiMove\<close> call runs.\<close>

definition fire_ai_timer :: "session \<Rightarrow> (nat \<Rightarrow> real) \<Rightarrow> fault + session" where
  "fire_ai_timer s rnd =
     (case aiTimers s of
        [] \<Rightarrow> Inr s
      | call # rest \<Rightarrow> makeAiMove (s\<lparr>aiTimers := rest\<rparr>) call rnd)"

subsection \<open>Settings and the online roles\<close>

text \<open>
  \<^verbatim>\<open>setGameMode\<close>, with what the next render does to the memoised \<^verbatim>\<open>processTurn\<close>: when
  the mode changes, a new function is created, which captures the difficulty of that
  render. The mode buttons for the two local modes call it together with \<^verbatim>\<open>resetGame\<close>;
  the button for the online mode and the handler of a closed connection call it alone.
  \<^verbatim>\<open>setDifficulty\<close> leaves the function in use as it is; the selection box calls it
  together with \<^verbatim>\<open>resetGame\<close>. \<^verbatim>\<open>joinOnlineGame\<close>, once the peer and the room are there,
  makes this process the guest, playing white; the host's \<^verbatim>\<open>open\<close> handler of
  \<^verbatim>\<open>initOnlineGame\<close> sets black.
\<close>

definition setGameMode :: "GameMode \<Rightarrow> session \<Rightarrow> session" where
  "setGameMode m s =
     s\<lparr>gameMode := m,
       capturedDifficulty := (if m = gameMode s then capturedDifficulty s else difficulty s)\<rparr>"

definition setDifficulty :: "string \<Rightarrow> session \<Rightarrow> session" where
  "setDifficulty d s = s\<lparr>difficulty := d\<rparr>"

definition joinOnlineGame :: "session \<Rightarrow> session" where
  "joinOnlineGame s = s\<lparr>humanColor := PLAYER_WHITE\<rparr>"

definition hostOpen :: "session \<Rightarrow> session" where
  "hostOpen s = s\<lparr>humanColor := PLAYER_BLACK\<rparr>"

subsection \<open>The variant with the external oracle\<close>

text \<open>
  The second source file has a fourth tier, \<^verbatim>\<open>getGeminiMove\<close>. The reply of the
  external service is an input: \<open>None\<close> when the call or the parse of the reply fails,
  otherwise the \<^verbatim>\<open>row\<close> and \<^verbatim>\<open>col\<close> of the reply. Every failure inside the \<^verbatim>\<open>try\<close>
  block, also a \<^verbatim>\<open>TypeError\<close> of the board read, ends in the \<^verbatim>\<open>catch\<close> block, which
  returns the move of \<^verbatim>\<open>getSuperStrongMove\<close>.
\<close>

definition getGeminiMove ::
  "coord option \<Rightarrow> BoardState \<Rightarrow> CellValue \<Rightarrow> (nat \<Rightarrow> real) \<Rightarrow> fault + coord option" where
  "getGeminiMove reply currentBoard aiPlayer rnd =
     (case reply of
        None \<Rightarrow> getSuperStrongMove currentBoard aiPlayer rnd
      | Some (row, col) \<Rightarrow>
          if row \<ge> 0 \<and> row < 15 \<and> col \<ge> 0 \<and> col < 15
             \<and> cell_at currentBoard row col = Inr (Some EMPTY)
          then Inr (Some (row, col))
          else getSuperStrongMove currentBoard aiPlayer rnd)"

definition select_move_oracle ::
  "string \<Rightarrow> coord option \<Rightarrow> BoardState \<Rightarrow> CellValue \<Rightarrow> (nat \<Rightarrow> real) \<Rightarrow> fault + coord option" where
  "select_move_oracle diff reply currentBoard aiPlayer rnd =
     (if diff = ''EASY'' then getEasyMove currentBoard aiPlayer rnd
      else if diff = ''MEDIUM'' then getMediumMove currentBoard aiPlayer rnd
      else if diff = ''SUPER_STRONG'' then getSuperStrongMove currentBoard aiPlayer rnd
      else getGeminiMove reply currentBoard aiPlayer rnd)"

section \<open>Notions of the specification\<close>

text \<open>
  A cell of the 15 by 15 board that holds the colour \<open>p\<close>; a contiguous run of
  \<open>p\<close> through \<open>(r, c)\<close> along a direction, from offset \<open>lo \<le> 0\<close> to offset
  \<open>hi \<ge> 0\<close>; a run of length at least five; and the cells that lie on such a run.
\<close>

definition stone :: "BoardState \<Rightarrow> CellValue \<Rightarrow> int \<Rightarrow> int \<Rightarrow> bool" where
  "stone b p r c \<longleftrightarrow>
     0 \<le> r \<and> r < BOARD_SIZE \<and> 0 \<le> c \<and> c < BOARD_SIZE \<and> cell_at b r c = Inr (Some p)"

definition run_through :: "BoardState \<Rightarrow> CellValue \<Rightarrow> int \<Rightarrow> int \<Rightarrow> direction \<Rightarrow> int \<Rightarrow> int \<Rightarrow> bool" where
  "run_through b p r c d lo hi \<longleftrightarrow>
     lo \<le> 0 \<and> 0 \<le> hi \<and> (\<forall>k. lo \<le> k \<and> k \<le> hi \<longrightarrow> stone b p (r + dx d * k) (c + dy d * k))"


definition on_long_run :: "BoardState \<Rightarrow> CellValue \<Rightarrow> int \<Rightarrow> int \<Rightarrow> direction \<Rightarrow> coord \<Rightarrow> bool" where
  "on_long_run b p r c d xy \<longleftrightarrow>
     (\<exists>lo hi k. run_through b p r c d lo hi \<and> 5 \<le> hi - lo + 1 \<and> lo \<le> k \<and> k \<le> hi
        \<and> xy = (r + dx d * k, c + dy d * k))"

text \<open>
  The two seats, and the colour a seat holds at a turn counter: the first seat holds
  the starting colour, black, when \<open>floor (turnCounter / 30) mod 2\<close> is even.
\<close>

datatype seat = Seat1 | Seat2

fun other_seat :: "seat \<Rightarrow> seat" where
  "other_seat Seat1 = Seat2"
| "other_seat Seat2 = Seat1"

fun seat_score :: "int \<times> int \<Rightarrow> seat \<Rightarrow> int" where
  "seat_score sc Seat1 = fst sc"
| "seat_score sc Seat2 = snd sc"

definition seat_color :: "int \<Rightarrow> seat \<Rightarrow> CellValue" where
  "seat_color turnCounter st =
     (if (turnCounter div 30) mod 2 = 0
      then (case st of Seat1 \<Rightarrow> PLAYER_BLACK | Seat2 \<Rightarrow> PLAYER_WHITE)
      else (case st of Seat1 \<Rightarrow> PLAYER_WHITE | Seat2 \<Rightarrow> PLAYER_BLACK))"

text \<open>The number of stones of a colour on a board, and the other colour.\<close>

definition stones_of :: "BoardState \<Rightarrow> CellValue \<Rightarrow> int" where
  "stones_of b col = int (length (filter (\<lambda>cell. cell = col) (concat b)))"

definition opposite :: "CellValue \<Rightarrow> CellValue" where
  "opposite col = (if col = PLAYER_BLACK then PLAYER_WHITE else PLAYER_BLACK)"

text \<open>
  The sessions of a process, from the initial state. The events are: a local click; a
  move received from the peer (the connection exists in the online mode only); a
  scheduled automated move whose timer fires; a restart, by the restart buttons or the
  peer's restart message, which are never disabled and cancel no timer; a change of mode,
  alone as the online button and a closed connection make it, or with a restart as the
  buttons of the two local modes and \<^verbatim>\<open>initOnlineGame\<close> make it (the two rules one after
  the other); the selection of a difficulty; and the two online roles.
\<close>

inductive reachable :: "session \<Rightarrow> bool" where
  start: "reachable initial_session"
| click: "reachable s \<Longrightarrow> handleCellClick s r c = Inr s' \<Longrightarrow> reachable s'"
| remote: "reachable s \<Longrightarrow> gameMode s = ONLINE \<Longrightarrow> handleRemoteMove s r c = Inr s'
           \<Longrightarrow> reachable s'"
| timer: "reachable s \<Longrightarrow> fire_ai_timer s rnd = Inr s' \<Longrightarrow> reachable s'"
| reset: "reachable s \<Longrightarrow> reachable (resetGame s)"
| mode: "reachable s \<Longrightarrow> reachable (setGameMode m s)"
| select: "reachable s \<Longrightarrow> reachable (resetGame (setDifficulty d s))"
| join: "reachable s \<Longrightarrow> reachable (joinOnlineGame s)"
| host: "reachable s \<Longrightarrow> reachable (hostOpen s)"

text \<open>
  The sessions of a process in which no restart and no change of mode happens while an
  automated move is scheduled, with the seat that \<open>humanColor\<close> stands for: the first
  seat in a local or hosting process, the second seat in a process that joined a game at
  turn counter \<open>0\<close>. A joined process has no restart here: \<^verbatim>\<open>resetGame\<close> sets black, the
  first seat's colour.
\<close>

inductive steady :: "seat \<Rightarrow> session \<Rightarrow> bool" where
  local: "steady Seat1 initial_session"
| guest: "steady Seat1 s \<Longrightarrow> turnCount s = 0 \<Longrightarrow> aiTimers s = []
          \<Longrightarrow> steady Seat2 (joinOnlineGame s)"
| click: "steady own s \<Longrightarrow> handleCellClick s r c = Inr s' \<Longrightarrow> steady own s'"
| remote: "steady own s \<Longrightarrow> gameMode s = ONLINE \<Longrightarrow> handleRemoteMove s r c = Inr s'
           \<Longrightarrow> steady own s'"
| timer: "steady own s \<Longrightarrow> fire_ai_timer s rnd = Inr s' \<Longrightarrow> steady own s'"
| reset: "steady Seat1 s \<Longrightarrow> aiTimers s = [] \<Longrightarrow> steady Seat1 (resetGame s)"
| mode: "steady own s \<Longrightarrow> aiTimers s = [] \<Longrightarrow> steady own (setGameMode m s)"
| select: "steady Seat1 s \<Longrightarrow> aiTimers s = []
           \<Longrightarrow> steady Seat1 (resetGame (setDifficulty d s))"
| host: "steady Seat1 s \<Longrightarrow> turnCount s < 30 \<Longrightarrow> steady Seat1 (hostOpen s)"


text \<open>
  What holds of every session of a process: the board is 15 by 15, and so is the board
  of every scheduled automated move, which has an empty cell.
\<close>

definition call_board :: "ai_call \<Rightarrow> BoardState" where
  "call_board call = fst (snd call)"

definition timers_playable :: "session \<Rightarrow> bool" where
  "timers_playable s \<longleftrightarrow>
     wf_board (board s)
     \<and> (\<forall>call \<in> set (aiTimers s).
           wf_board (call_board call) \<and> isBoardFull (call_board call) = Inr False)"

text \<open>
  The neighbour test of the strong tier as it would be with the column checked as well
  as the row.
\<close>

definition adjacent_own_checked :: "BoardState \<Rightarrow> int \<Rightarrow> int \<Rightarrow> CellValue \<Rightarrow> fault + bool" where
  "adjacent_own_checked tempBoard r' c' aiPlayer =
     (if r' < 15 \<and> r' \<ge> 0 \<and> c' < 15 \<and> c' \<ge> 0
      then (case cell_at tempBoard r' c' of
              Inl e \<Rightarrow> Inl e
            | Inr v \<Rightarrow> Inr (v = Some aiPlayer))
      else Inr False)"

text \<open>
  For the loops of \<open>getEmptyNeighbors\<close>: what holds of their state on a board, a loop
  body that keeps it and only adds moves, and a loop body that leaves a given cell among
  the moves.
\<close>

definition nb_inv :: "BoardState \<Rightarrow> coord set \<times> coord list \<Rightarrow> bool" where
  "nb_inv b st \<longleftrightarrow>
     fst st = set (snd st) \<and> (\<forall>xy \<in> set (snd st). stone b EMPTY (fst xy) (snd xy))"

definition nb_good ::
  "BoardState \<Rightarrow> (coord set \<times> coord list \<Rightarrow> fault + coord set \<times> coord list) \<Rightarrow> bool" where
  "nb_good b g \<longleftrightarrow>
     (\<forall>st. nb_inv b st \<longrightarrow>
        (\<exists>st'. g st = Inr st' \<and> nb_inv b st' \<and> set (snd st) \<subseteq> set (snd st')))"

definition nb_reaches ::
  "BoardState \<Rightarrow> coord \<Rightarrow> (coord set \<times> coord list \<Rightarrow> fault + coord set \<times> coord list) \<Rightarrow> bool" where
  "nb_reaches b t g \<longleftrightarrow> (\<forall>st st'. nb_inv b st \<longrightarrow> g st = Inr st' \<longrightarrow> t \<in> set (snd st'))"

section \<open>Boards used in the examples\<close>

text \<open>
  An empty board with one black stone at \<open>(7, 13)\<close>; an empty board with five black
  stones at \<open>(7, 0)\<close> to \<open>(7, 4)\<close>; the same board before the stone at \<open>(7, 0)\<close> is
  placed; a full board, white but for one black stone at \<open>(7, 7)\<close>.
\<close>

definition single_stone_board :: BoardState where
  "single_stone_board = empty_board[7 := (replicate 15 EMPTY)[13 := PLAYER_BLACK]]"

definition five_board :: BoardState where
  "five_board = empty_board[7 := replicate 5 PLAYER_BLACK @ replicate 10 EMPTY]"

definition four_board :: BoardState where
  "four_board = empty_board[7 := EMPTY # replicate 4 PLAYER_BLACK @ replicate 10 EMPTY]"

definition crowded_board :: BoardState where
  "crowded_board =
     (replicate 15 (replicate 15 PLAYER_WHITE))[7 := (replicate 15 PLAYER_WHITE)[7 := PLAYER_BLACK]]"




text \<open>
  The host's session of an online game after its first move, black at \<open>(7, 13)\<close>: the
  peer, playing white, is due to move.
\<close>

definition online_session :: session where
  "online_session =
     initial_session\<lparr>gameMode := ONLINE, board := single_stone_board,
       currentPlayer := PLAYER_WHITE, turnCount := 1, lastMove := Some (7, 13)\<rparr>"

text \<open>A run of \<^verbatim>\<open>Math.random()\<close> that returns one half at every call.\<close>

definition half_rnd :: "nat \<Rightarrow> real" where
  "half_rnd k = 1 / 2"

text \<open>
  A list of local clicks, one after the other; a two-player session at its start; and
  that session after clicks on the first thirty cells of the board, row by row.
\<close>

fun play :: "session \<Rightarrow> coord list \<Rightarrow> fault + session" where
  "play s [] = Inr s"
| "play s ((r, c) # rest) =
     (case handleCellClick s r c of Inl e \<Rightarrow> Inl e | Inr s' \<Rightarrow> play s' rest)"

definition pvp_start :: session where
  "pvp_start = resetGame (setGameMode PVP initial_session)"






text \<open>
  The session after the first click of a game against the machine, black at \<open>(7, 13)\<close>,
  and the automated move that this click schedules.
\<close>

definition first_click_session :: session where
  "first_click_session =
     (case handleCellClick initial_session 7 13 of Inr s \<Rightarrow> s | Inl e \<Rightarrow> initial_session)"

definition first_call :: ai_call where
  "first_call = ((PVE, ''EASY''), single_stone_board, PLAYER_WHITE, PLAYER_BLACK, 0, 0, 1)"

text \<open>
  A board with two empty cells, \<open>(0, 0)\<close> and \<open>(7, 14)\<close> on the right edge, one white
  stone at \<open>(7, 13)\<close> and black stones elsewhere; and the same cells in an array whose
  row 7 has one more entry, white, at column 15.
\<close>

definition edge_board :: BoardState where
  "edge_board =
     (replicate 15 (replicate 15 PLAYER_BLACK))
       [0 := EMPTY # replicate 14 PLAYER_BLACK,
        7 := replicate 13 PLAYER_BLACK @ [PLAYER_WHITE, EMPTY]]"

definition wide_edge_board :: BoardState where
  "wide_edge_board =
     edge_board[7 := replicate 13 PLAYER_BLACK @ [PLAYER_WHITE, EMPTY, PLAYER_WHITE]]"





declare walk_forward.simps [simp del] walk_backward.simps [simp del]

section \<open>Reading and writing a well-formed board\<close>

lemma cell_at_wf:
  assumes "wf_board b" "0 \<le> r" "r < 15" "0 \<le> c" "c < 15"
  shows "cell_at b r c = Inr (Some (b ! nat r ! nat c))"
proof -
  have "nat r < length b" using assms by (simp add: wf_board_def)
  then have "length (b ! nat r) = 15" using assms(1) by (simp add: wf_board_def)
  then show ?thesis using assms by (simp add: cell_at_def row_at_def wf_board_def)
qed

lemma cell_at_row_ok:
  assumes "wf_board b" "0 \<le> r" "r < 15"
  shows "\<exists>v. cell_at b r c = Inr v"
  using assms by (simp add: cell_at_def row_at_def wf_board_def)

section \<open>Line detection\<close>

lemma stone_cell: "wf_board b \<Longrightarrow> 0 \<le> r \<Longrightarrow> r < BOARD_SIZE \<Longrightarrow> 0 \<le> c \<Longrightarrow> c < BOARD_SIZE \<Longrightarrow>
   \<exists>v. cell_at b r c = Inr v"
  by (simp add: BOARD_SIZE_def cell_at_row_ok)

lemma walk_forward_spec:
  assumes "wf_board b"
  shows "\<exists>n. 0 \<le> n \<and>
     walk_forward b p lr lc d i (cnt, cells)
       = Inr (cnt + n, cells @ map (\<lambda>k. (lr + dx d * k, lc + dy d * k)) [i..i + n - 1])
     \<and> (\<forall>k. i \<le> k \<and> k < i + n \<longrightarrow> stone b p (lr + dx d * k) (lc + dy d * k))
     \<and> \<not> stone b p (lr + dx d * (i + n)) (lc + dy d * (i + n))"
  using assms
proof (induction b p lr lc d i "(cnt, cells)" arbitrary: cnt cells rule: walk_forward.induct)
  case (1 board player lastRow lastCol d i count lineCells)
  let ?r = "lastRow + dx d * i" and ?c = "lastCol + dy d * i"
  show ?case
  proof (cases "stone board player ?r ?c")
    case True
    then have inb: "?r \<ge> 0 \<and> ?r < BOARD_SIZE \<and> ?c \<ge> 0 \<and> ?c < BOARD_SIZE"
      and cell: "cell_at board ?r ?c = Inr (Some player)"
      by (auto simp: stone_def)
    from "1.hyps"[OF inb cell refl "1.prems"]
    obtain n where n: "0 \<le> n"
      "walk_forward board player lastRow lastCol d (i + 1) (count + 1, lineCells @ [(?r, ?c)])
        = Inr (count + 1 + n, (lineCells @ [(?r, ?c)]) @ map (\<lambda>k. (lastRow + dx d * k, lastCol + dy d * k)) [i + 1..i + 1 + n - 1])"
      "\<forall>k. i + 1 \<le> k \<and> k < i + 1 + n \<longrightarrow> stone board player (lastRow + dx d * k) (lastCol + dy d * k)"
      "\<not> stone board player (lastRow + dx d * (i + 1 + n)) (lastCol + dy d * (i + 1 + n))"
      by blast
    have up: "[i..i + (n + 1) - 1] = i # [i + 1..i + 1 + n - 1]"
      using n(1) by (simp add: upto_rec1)
    have all: "\<forall>k. i \<le> k \<and> k < i + (n + 1) \<longrightarrow> stone board player (lastRow + dx d * k) (lastCol + dy d * k)"
    proof (intro allI impI)
      fix k assume "i \<le> k \<and> k < i + (n + 1)"
      then have "k = i \<or> (i + 1 \<le> k \<and> k < i + 1 + n)" by arith
      then show "stone board player (lastRow + dx d * k) (lastCol + dy d * k)"
        using True n(3) by auto
    qed
    have "walk_forward board player lastRow lastCol d i (count, lineCells)
        = Inr (count + (n + 1), lineCells @ map (\<lambda>k. (lastRow + dx d * k, lastCol + dy d * k)) [i..i + (n + 1) - 1])"
      using inb cell n(2) up by (simp add: walk_forward.simps[of board player lastRow lastCol d i])
    moreover have "\<not> stone board player (lastRow + dx d * (i + (n + 1))) (lastCol + dy d * (i + (n + 1)))"
    proof -
      have eq: "i + (n + 1) = i + 1 + n" by simp
      show ?thesis unfolding eq by (rule n(4))
    qed
    ultimately show ?thesis using n(1) all
      by (intro exI[of _ "n + 1"]) simp
  next
    case False
    have "walk_forward board player lastRow lastCol d i (count, lineCells) = Inr (count, lineCells)"
    proof (cases "?r \<ge> 0 \<and> ?r < BOARD_SIZE \<and> ?c \<ge> 0 \<and> ?c < BOARD_SIZE")
      case True
      then obtain v where v: "cell_at board ?r ?c = Inr v"
        using stone_cell[OF "1.prems"] by blast
      with False True have "v \<noteq> Some player" by (auto simp: stone_def)
      with True v show ?thesis by (simp add: walk_forward.simps[of board player lastRow lastCol d i])
    next
      case False
      then show ?thesis by (auto simp: walk_forward.simps[of board player lastRow lastCol d i])
    qed
    with False show ?thesis by (intro exI[of _ 0]) auto
  qed
qed

lemma walk_backward_spec:
  assumes "wf_board b"
  shows "\<exists>n. 0 \<le> n \<and>
     walk_backward b p lr lc d i (cnt, cells)
       = Inr (cnt + n, cells @ map (\<lambda>k. (lr - dx d * k, lc - dy d * k)) [i..i + n - 1])
     \<and> (\<forall>k. i \<le> k \<and> k < i + n \<longrightarrow> stone b p (lr - dx d * k) (lc - dy d * k))
     \<and> \<not> stone b p (lr - dx d * (i + n)) (lc - dy d * (i + n))"
  using assms
proof (induction b p lr lc d i "(cnt, cells)" arbitrary: cnt cells rule: walk_backward.induct)
  case (1 board player lastRow lastCol d i count lineCells)
  let ?r = "lastRow - dx d * i" and ?c = "lastCol - dy d * i"
  show ?case
  proof (cases "stone board player ?r ?c")
    case True
    then have inb: "?r \<ge> 0 \<and> ?r < BOARD_SIZE \<and> ?c \<ge> 0 \<and> ?c < BOARD_SIZE"
      and cell: "cell_at board ?r ?c = Inr (Some player)"
      by (auto simp: stone_def)
    from "1.hyps"[OF inb cell refl "1.prems"]
    obtain n where n: "0 \<le> n"
      "walk_backward board player lastRow lastCol d (i + 1) (count + 1, lineCells @ [(?r, ?c)])
        = Inr (count + 1 + n, (lineCells @ [(?r, ?c)]) @ map (\<lambda>k. (lastRow - dx d * k, lastCol - dy d * k)) [i + 1..i + 1 + n - 1])"
      "\<forall>k. i + 1 \<le> k \<and> k < i + 1 + n \<longrightarrow> stone board player (lastRow - dx d * k) (lastCol - dy d * k)"
      "\<not> stone board player (lastRow - dx d * (i + 1 + n)) (lastCol - dy d * (i + 1 + n))"
      by blast
    have up: "[i..i + (n + 1) - 1] = i # [i + 1..i + 1 + n - 1]"
      using n(1) by (simp add: upto_rec1)
    have all: "\<forall>k. i \<le> k \<and> k < i + (n + 1) \<longrightarrow> stone board player (lastRow - dx d * k) (lastCol - dy d * k)"
    proof (intro allI impI)
      fix k assume "i \<le> k \<and> k < i + (n + 1)"
      then have "k = i \<or> (i + 1 \<le> k \<and> k < i + 1 + n)" by arith
      then show "stone board player (lastRow - dx d * k) (lastCol - dy d * k)"
        using True n(3) by auto
    qed
    have "walk_backward board player lastRow lastCol d i (count, lineCells)
        = Inr (count + (n + 1), lineCells @ map (\<lambda>k. (lastRow - dx d * k, lastCol - dy d * k)) [i..i + (n + 1) - 1])"
      using inb cell n(2) up by (simp add: walk_backward.simps[of board player lastRow lastCol d i])
    moreover have "\<not> stone board player (lastRow - dx d * (i + (n + 1))) (lastCol - dy d * (i + (n + 1)))"
    proof -
      have eq: "i + (n + 1) = i + 1 + n" by simp
      show ?thesis unfolding eq by (rule n(4))
    qed
    ultimately show ?thesis using n(1) all
      by (intro exI[of _ "n + 1"]) simp
  next
    case False
    have "walk_backward board player lastRow lastCol d i (count, lineCells) = Inr (count, lineCells)"
    proof (cases "?r \<ge> 0 \<and> ?r < BOARD_SIZE \<and> ?c \<ge> 0 \<and> ?c < BOARD_SIZE")
      case True
      then obtain v where v: "cell_at board ?r ?c = Inr v"
        using stone_cell[OF "1.prems"] by blast
      with False True have "v \<noteq> Some player" by (auto simp: stone_def)
      with True v show ?thesis by (simp add: walk_backward.simps[of board player lastRow lastCol d i])
    next
      case False
      then show ?thesis by (auto simp: walk_backward.simps[of board player lastRow lastCol d i])
    qed
    with False show ?thesis by (intro exI[of _ 0]) auto
  qed
qed


lemma run_bounds:
  assumes fw: "\<forall>k. 1 \<le> k \<and> k < 1 + n1 \<longrightarrow> stone b p (r + dx d * k) (c + dy d * k)"
      and fwstop: "\<not> stone b p (r + dx d * (1 + n1)) (c + dy d * (1 + n1))"
      and bw: "\<forall>k. 1 \<le> k \<and> k < 1 + n2 \<longrightarrow> stone b p (r - dx d * k) (c - dy d * k)"
      and bwstop: "\<not> stone b p (r - dx d * (1 + n2)) (c - dy d * (1 + n2))"
      and origin: "stone b p r c"
      and n: "0 \<le> n1" "0 \<le> n2"
  shows "run_through b p r c d lo hi \<longleftrightarrow> - n2 \<le> lo \<and> lo \<le> 0 \<and> 0 \<le> hi \<and> hi \<le> n1"
proof
  assume run: "run_through b p r c d lo hi"
  then have lo: "lo \<le> 0" and hi: "0 \<le> hi"
    and all: "\<And>k. lo \<le> k \<Longrightarrow> k \<le> hi \<Longrightarrow> stone b p (r + dx d * k) (c + dy d * k)"
    by (auto simp: run_through_def)
  have "hi \<le> n1"
  proof (rule ccontr)
    assume "\<not> hi \<le> n1"
    then have "lo \<le> 1 + n1" "1 + n1 \<le> hi" using lo n by auto
    from all[OF this] fwstop show False by simp
  qed
  moreover have "- n2 \<le> lo"
  proof (rule ccontr)
    assume "\<not> - n2 \<le> lo"
    then have "lo \<le> - (1 + n2)" "- (1 + n2) \<le> hi" using hi n by auto
    from all[OF this] have "stone b p (r - dx d * (1 + n2)) (c - dy d * (1 + n2))"
      by (simp add: algebra_simps)
    with bwstop show False by simp
  qed
  ultimately show "- n2 \<le> lo \<and> lo \<le> 0 \<and> 0 \<le> hi \<and> hi \<le> n1" using lo hi by simp
next
  assume b: "- n2 \<le> lo \<and> lo \<le> 0 \<and> 0 \<le> hi \<and> hi \<le> n1"
  have "stone b p (r + dx d * k) (c + dy d * k)" if k: "lo \<le> k" "k \<le> hi" for k
  proof -
    consider "k = 0" | "1 \<le> k" | "k \<le> - 1" by linarith
    then show ?thesis
    proof cases
      case 1 then show ?thesis using origin by simp
    next
      case 2 then show ?thesis using fw k b by auto
    next
      case 3
      then have "1 \<le> - k \<and> - k < 1 + n2" using k b by auto
      with bw have "stone b p (r - dx d * (- k)) (c - dy d * (- k))" by blast
      then show ?thesis by simp
    qed
  qed
  then show "run_through b p r c d lo hi" using b by (simp add: run_through_def)
qed

lemma line_in_direction_spec:
  assumes wf: "wf_board b" and origin: "stone b p r c"
  shows "\<exists>cells. line_in_direction b r c p d acc = Inr (acc @ cells)
           \<and> set cells = {xy. on_long_run b p r c d xy}"
proof -
  from walk_forward_spec[OF wf, of p r c d 1 1 "[(r, c)]"]
  obtain n1 where n1: "0 \<le> n1"
    "walk_forward b p r c d 1 (1, [(r, c)])
       = Inr (1 + n1, [(r, c)] @ map (\<lambda>k. (r + dx d * k, c + dy d * k)) [1..1 + n1 - 1])"
    "\<forall>k. 1 \<le> k \<and> k < 1 + n1 \<longrightarrow> stone b p (r + dx d * k) (c + dy d * k)"
    "\<not> stone b p (r + dx d * (1 + n1)) (c + dy d * (1 + n1))"
    by blast
  let ?fw = "[(r, c)] @ map (\<lambda>k. (r + dx d * k, c + dy d * k)) [1..1 + n1 - 1]"
  from walk_backward_spec[OF wf, of p r c d 1 "1 + n1" ?fw]
  obtain n2 where n2: "0 \<le> n2"
    "walk_backward b p r c d 1 (1 + n1, ?fw)
       = Inr (1 + n1 + n2, ?fw @ map (\<lambda>k. (r - dx d * k, c - dy d * k)) [1..1 + n2 - 1])"
    "\<forall>k. 1 \<le> k \<and> k < 1 + n2 \<longrightarrow> stone b p (r - dx d * k) (c - dy d * k)"
    "\<not> stone b p (r - dx d * (1 + n2)) (c - dy d * (1 + n2))"
    by blast
  let ?line = "?fw @ map (\<lambda>k. (r - dx d * k, c - dy d * k)) [1..1 + n2 - 1]"
  note rb = run_bounds[OF n1(3) n1(4) n2(3) n2(4) origin n1(1) n2(1)]
  have line_set: "set ?line = {(r + dx d * k, c + dy d * k) | k. - n2 \<le> k \<and> k \<le> n1}"
  proof (intro set_eqI iffI)
    fix xy assume "xy \<in> set ?line"
    then consider "xy = (r, c)" | k where "1 \<le> k" "k \<le> n1" "xy = (r + dx d * k, c + dy d * k)"
      | k where "1 \<le> k" "k \<le> n2" "xy = (r - dx d * k, c - dy d * k)"
      by auto
    then show "xy \<in> {(r + dx d * k, c + dy d * k) | k. - n2 \<le> k \<and> k \<le> n1}"
    proof cases
      case 1 then show ?thesis using n1(1) n2(1) by (auto intro: exI[of _ 0])
    next
      case 2 then show ?thesis using n2(1) by (auto intro!: exI[of _ k])
    next
      case 3 then show ?thesis using n1(1) by (auto intro!: exI[of _ "- k"])
    qed
  next
    fix xy assume "xy \<in> {(r + dx d * k, c + dy d * k) | k. - n2 \<le> k \<and> k \<le> n1}"
    then obtain k where k: "- n2 \<le> k" "k \<le> n1" "xy = (r + dx d * k, c + dy d * k)" by blast
    consider "k = 0" | "1 \<le> k" | "k \<le> - 1" by linarith
    then show "xy \<in> set ?line"
    proof cases
      case 1 then show ?thesis using k by simp
    next
      case 2 then show ?thesis using k by auto
    next
      case 3
      then have "1 \<le> - k" "- k \<le> n2" "xy = (r - dx d * (- k), c - dy d * (- k))"
        using k by auto
      then have "xy \<in> (\<lambda>k. (r - dx d * k, c - dy d * k)) ` {1..1 + n2 - 1}"
        by (intro image_eqI[of _ _ "- k"]) auto
      then show ?thesis by simp
    qed
  qed
  have res: "line_in_direction b r c p d acc
               = Inr (if 1 + n1 + n2 \<ge> 5 then acc @ ?line else acc)"
    by (simp only: line_in_direction_def n1(2) n2(2) sum.case prod.case)
  show ?thesis
  proof (cases "1 + n1 + n2 \<ge> 5")
    case True
    have "{xy. on_long_run b p r c d xy} = {(r + dx d * k, c + dy d * k) | k. - n2 \<le> k \<and> k \<le> n1}"
    proof (intro set_eqI iffI)
      fix xy assume "xy \<in> {xy. on_long_run b p r c d xy}"
      then obtain lo hi k where "run_through b p r c d lo hi" "lo \<le> k" "k \<le> hi"
        "xy = (r + dx d * k, c + dy d * k)" by (auto simp: on_long_run_def)
      then show "xy \<in> {(r + dx d * k, c + dy d * k) | k. - n2 \<le> k \<and> k \<le> n1}"
        using rb[of lo hi] by (auto intro!: exI[of _ k])
    next
      fix xy assume "xy \<in> {(r + dx d * k, c + dy d * k) | k. - n2 \<le> k \<and> k \<le> n1}"
      then obtain k where k: "- n2 \<le> k" "k \<le> n1" "xy = (r + dx d * k, c + dy d * k)" by blast
      have "run_through b p r c d (- n2) n1" using rb[of "- n2" n1] n1(1) n2(1) by simp
      then have "on_long_run b p r c d xy"
        unfolding on_long_run_def using k True
        by (intro exI[of _ "- n2"] exI[of _ n1] exI[of _ k]) simp
      then show "xy \<in> {xy. on_long_run b p r c d xy}" by simp
    qed
    with True res line_set show ?thesis by (intro exI[of _ ?line]) simp
  next
    case False
    have "\<not> on_long_run b p r c d xy" for xy
    proof
      assume "on_long_run b p r c d xy"
      then obtain lo hi where "run_through b p r c d lo hi" "5 \<le> hi - lo + 1"
        by (auto simp: on_long_run_def)
      with rb[of lo hi] False show False by auto
    qed
    with False res show ?thesis by (intro exI[of _ "[]"]) simp
  qed
qed


lemma fold_lines_spec:
  assumes wf: "wf_board b" and origin: "stone b p r c"
  shows "\<exists>cells. foldE (line_in_direction b r c p) ds acc = Inr (acc @ cells)
           \<and> set cells = {xy. \<exists>d \<in> set ds. on_long_run b p r c d xy}"
proof (induction ds arbitrary: acc)
  case Nil
  show ?case by simp
next
  case (Cons d ds)
  from line_in_direction_spec[OF wf origin, of d acc]
  obtain c1 where c1: "line_in_direction b r c p d acc = Inr (acc @ c1)"
    "set c1 = {xy. on_long_run b p r c d xy}" by blast
  from Cons.IH[of "acc @ c1"]
  obtain c2 where c2: "foldE (line_in_direction b r c p) ds (acc @ c1) = Inr ((acc @ c1) @ c2)"
    "set c2 = {xy. \<exists>d \<in> set ds. on_long_run b p r c d xy}" by blast
  have "foldE (line_in_direction b r c p) (d # ds) acc = Inr (acc @ (c1 @ c2))"
    using c1(1) c2(1) by simp
  moreover have "set (c1 @ c2) = {xy. \<exists>d' \<in> set (d # ds). on_long_run b p r c d' xy}"
    using c1(2) c2(2) by auto
  ultimately show ?case by blast
qed

lemma set_directions: "set directions = UNIV"
proof -
  have "d \<in> set directions" for d by (cases d) (simp_all add: directions_def)
  then show ?thesis by blast
qed

lemma unique_fold:
  "set (fold (\<lambda>s seen. if s \<in> set seen then seen else seen @ [s]) xs acc) = set acc \<union> set xs
   \<and> (distinct acc \<longrightarrow> distinct (fold (\<lambda>s seen. if s \<in> set seen then seen else seen @ [s]) xs acc))"
  by (induction xs arbitrary: acc) auto

lemma set_uniqueStones: "set (uniqueStones xs) = set xs"
  using unique_fold[of xs "[]"] by (simp add: uniqueStones_def)

lemma distinct_uniqueStones: "distinct (uniqueStones xs)"
  using unique_fold[of xs "[]"] by (simp add: uniqueStones_def)

lemma on_long_run_stone: "on_long_run b p r c d xy \<Longrightarrow> stone b p (fst xy) (snd xy)"
  by (auto simp: on_long_run_def run_through_def)



lemma checkLongLines_result:
  assumes wf: "wf_board b" and origin: "stone b p r c"
  shows "\<exists>cells. distinct cells \<and> set cells = {xy. \<exists>d. on_long_run b p r c d xy}
           \<and> checkLongLines b r c p = Inr (if cells = [] then None else Some cells)"
proof -
  from fold_lines_spec[OF wf origin, of directions "[]"]
  obtain cells where cells: "foldE (line_in_direction b r c p) directions [] = Inr cells"
    "set cells = {xy. \<exists>d. on_long_run b p r c d xy}"
    by (auto simp: set_directions)
  have "checkLongLines b r c p
          = Inr (if uniqueStones cells = [] then None else Some (uniqueStones cells))"
    by (simp add: checkLongLines_def cells(1))
  then show ?thesis
    using cells(2) by (intro exI[of _ "uniqueStones cells"])
      (simp add: set_uniqueStones distinct_uniqueStones)
qed



lemma checkLongLines_five:
  "checkLongLines five_board 7 4 PLAYER_BLACK
     = Inr (Some [(7, 4), (7, 3), (7, 2), (7, 1), (7, 0)])"
  by code_simp

text \<open>
  The function counts the cell \<open>(r, c)\<close> without reading it: every caller places the
  stone before the call, which is the hypothesis \<open>stone b p r c\<close> above. Called for a
  cell where the stone has not been placed, it returns that cell all the same.
\<close>

lemma checkLongLines_unplaced:
  "cell_at four_board 7 0 = Inr (Some EMPTY)
   \<and> checkLongLines four_board 7 0 PLAYER_BLACK
       = Inr (Some [(7, 0), (7, 1), (7, 2), (7, 3), (7, 4)])"
  by code_simp

section \<open>Writing a cell\<close>

lemma set_cell_wf:
  assumes "wf_board b" "0 \<le> r" "r < 15" "0 \<le> c" "c < 15"
  shows "\<exists>b'. set_cell b r c v = Inr b' \<and> wf_board b'"
proof -
  have r: "nat r < length b" using assms by (simp add: wf_board_def)
  then have len: "length (b ! nat r) = 15" using assms(1) by (simp add: wf_board_def)
  have "set_cell b r c v = Inr (b[nat r := (b ! nat r)[nat c := v]])"
    using assms r len by (simp add: set_cell_def row_at_def)
  moreover have "wf_board (b[nat r := (b ! nat r)[nat c := v]])"
    using assms(1) len by (auto simp: wf_board_def dest!: set_update_subset_insert[THEN subsetD])
  ultimately show ?thesis by blast
qed

lemma set_cell_read:
  assumes "wf_board b" "set_cell b r c v = Inr b'" "0 \<le> r'" "r' < 15" "0 \<le> c'" "c' < 15"
  shows "cell_at b' r' c' = (if r' = r \<and> c' = c then Inr (Some v) else cell_at b r' c')"
proof -
  from assms(2) have r: "0 \<le> r" "r < int (length b)" and c: "0 \<le> c" "c < int (length (b ! nat r))"
    and b': "b' = b[nat r := (b ! nat r)[nat c := v]]"
    by (auto simp: set_cell_def row_at_def split: if_splits)
  have lb: "length b = 15" using assms(1) by (simp add: wf_board_def)
  have r': "nat r' < length b" using assms lb by simp
  show ?thesis
  proof (cases "r' = r")
    case True
    then show ?thesis using r c b' assms(3-6) lb
      by (auto simp: cell_at_def row_at_def nth_list_update nat_eq_iff)
  next
    case False
    then have "nat r' \<noteq> nat r" using r assms(3) by (simp add: nat_eq_iff)
    then show ?thesis using r c b' assms(3-6) lb False
      by (auto simp: cell_at_def row_at_def nth_list_update)
  qed
qed

lemma stone_in_range: "stone b p r c \<Longrightarrow> 0 \<le> r \<and> r < 15 \<and> 0 \<le> c \<and> c < 15"
  by (simp add: stone_def BOARD_SIZE_def)

lemma clear_stones_ok:
  assumes "wf_board b" "\<forall>xy \<in> set cells. 0 \<le> fst xy \<and> fst xy < 15 \<and> 0 \<le> snd xy \<and> snd xy < 15"
  shows "\<exists>b'. clear_stones b cells = Inr b' \<and> wf_board b'"
  using assms unfolding clear_stones_def
proof (induction cells arbitrary: b)
  case Nil
  then show ?case by simp
next
  case (Cons xy cells)
  from set_cell_wf[OF Cons.prems(1), of "fst xy" "snd xy" EMPTY] Cons.prems(2)
  obtain b1 where b1: "set_cell b (fst xy) (snd xy) EMPTY = Inr b1" "wf_board b1" by auto
  from Cons.IH[OF b1(2)] Cons.prems(2) b1(1) show ?case by simp
qed

section \<open>Facts about isBoardFull\<close>

lemma set_all_cells: "set all_cells = {(r, c). 0 \<le> r \<and> r < 15 \<and> 0 \<le> c \<and> c < 15}"
proof -
  have b: "BOARD_SIZE - 1 = 14" by (simp add: BOARD_SIZE_def)
  have "set all_cells = (\<Union>r \<in> {0..14}. (\<lambda>c. (r, c)) ` {0..14})"
    unfolding all_cells_def b by (simp only: set_concat set_map set_upto image_image)
  also have "\<dots> = {(r, c). 0 \<le> r \<and> r < 15 \<and> 0 \<le> c \<and> c < 15}"
    by (auto simp: image_iff)
  finally show ?thesis .
qed

lemma full_scan_spec:
  assumes "wf_board b" "\<forall>xy \<in> set cs. 0 \<le> fst xy \<and> fst xy < 15 \<and> 0 \<le> snd xy \<and> snd xy < 15"
  shows "full_scan b cs = Inr (\<forall>xy \<in> set cs. cell_at b (fst xy) (snd xy) \<noteq> Inr (Some EMPTY))"
  using assms(2)
proof (induction cs)
  case Nil
  then show ?case by simp
next
  case (Cons xy cs)
  obtain r c where xy: "xy = (r, c)" by (cases xy)
  with Cons.prems have "0 \<le> r" "r < 15" by auto
  from cell_at_row_ok[OF assms(1) this, of c] obtain v where v: "cell_at b r c = Inr v" by blast
  show ?case using Cons v xy by auto
qed

lemma isBoardFull_spec:
  assumes "wf_board b"
  shows "isBoardFull b
           = Inr (\<forall>r c. 0 \<le> r \<and> r < 15 \<and> 0 \<le> c \<and> c < 15 \<longrightarrow> cell_at b r c \<noteq> Inr (Some EMPTY))"
proof -
  have "isBoardFull b = Inr (\<forall>xy \<in> set all_cells. cell_at b (fst xy) (snd xy) \<noteq> Inr (Some EMPTY))"
    unfolding isBoardFull_def by (rule full_scan_spec[OF assms]) (auto simp: set_all_cells)
  then show ?thesis by (auto simp: set_all_cells)
qed

section \<open>Facts about processTurn\<close>

lemma next_turn_total:
  assumes "wf_board ub"
  shows "\<exists>s'. next_turn cl s ub p hc cs t = Inr s'"
  using isBoardFull_spec[OF assms] by (simp add: next_turn_def Let_def)

lemma next_turn_fields:
  assumes "next_turn cl s ub p hc cs t = Inr s'"
  shows "scores s' = scores s" "board s' = board s" "isGameOver s' = isGameOver s"
    "finalResult s' = finalResult s" "turnCount s' = t + 1" "gameMode s' = gameMode s"
    "difficulty s' = difficulty s"
    "currentPlayer s' = (if p = PLAYER_BLACK then PLAYER_WHITE else PLAYER_BLACK)"
  using assms by (auto simp: next_turn_def Let_def split: if_splits sum.splits)

lemma explosion_ok:
  assumes wf: "wf_board nb" and st: "stone nb p r c"
  shows "\<exists>res ub. checkLongLines nb r c p = Inr res \<and> wf_board ub
     \<and> explosion s nb p base t res
         = Inr (case res of None \<Rightarrow> base | Some cells \<Rightarrow> award p t (int (length cells)) base,
                ub,
                case res of None \<Rightarrow> s | Some cells \<Rightarrow> s\<lparr>removedStones := cells\<rparr>)
     \<and> (res = None \<longrightarrow> ub = nb)"
proof -
  from checkLongLines_result[OF wf st]
  obtain cells where cells: "set cells = {xy. \<exists>d. on_long_run nb p r c d xy}"
    "checkLongLines nb r c p = Inr (if cells = [] then None else Some cells)" by blast
  show ?thesis
  proof (cases "cells = []")
    case True
    then show ?thesis using cells(2) wf by (simp add: explosion_def)
  next
    case False
    have "\<forall>xy \<in> set cells. 0 \<le> fst xy \<and> fst xy < 15 \<and> 0 \<le> snd xy \<and> snd xy < 15"
      using cells(1) on_long_run_stone stone_in_range by blast
    from clear_stones_ok[OF wf this] obtain ub where "clear_stones nb cells = Inr ub" "wf_board ub"
      by blast
    then show ?thesis using cells(2) False by (simp add: explosion_def)
  qed
qed

lemma processTurn_unfold:
  assumes wf: "wf_board nb" and st: "stone nb p r c"
  shows "\<exists>res cs ub s1 full.
       checkLongLines nb r c p = Inr res
     \<and> cs = (case res of None \<Rightarrow> base | Some cells \<Rightarrow> award p t (int (length cells)) base)
     \<and> wf_board ub \<and> isBoardFull ub = Inr full
     \<and> s1 = (case res of None \<Rightarrow> s | Some cells \<Rightarrow> s\<lparr>removedStones := cells\<rparr>)
               \<lparr>scores := cs, board := ub\<rparr>
     \<and> processTurn cl s nb r c p hc base t =
        (if fst cs \<ge> 200 \<and> fst cs - snd cs \<ge> 100
         then Inr (s1\<lparr>finalResult := Some (Player1, Dominant_win), isGameOver := True\<rparr>)
         else if snd cs \<ge> 200 \<and> snd cs - fst cs \<ge> 100
         then Inr (s1\<lparr>finalResult := Some (Player2, Dominant_win), isGameOver := True\<rparr>)
         else if full
         then Inr (s1\<lparr>finalResult := Some (getGameResult cs ub hc (fst cl)),
                       isGameOver := True\<rparr>)
         else next_turn cl s1 ub p hc cs t)"
proof -
  from explosion_ok[OF wf st, of s base t]
  obtain res ub where e: "checkLongLines nb r c p = Inr res" "wf_board ub"
    "explosion s nb p base t res
         = Inr (case res of None \<Rightarrow> base | Some cells \<Rightarrow> award p t (int (length cells)) base,
                ub,
                case res of None \<Rightarrow> s | Some cells \<Rightarrow> s\<lparr>removedStones := cells\<rparr>)"
    by blast
  define cs where "cs = (case res of None \<Rightarrow> base | Some cells \<Rightarrow> award p t (int (length cells)) base)"
  define s0 where "s0 = (case res of None \<Rightarrow> s | Some cells \<Rightarrow> s\<lparr>removedStones := cells\<rparr>)"
  define s1 where "s1 = s0\<lparr>scores := cs, board := ub\<rparr>"
  obtain full where full: "isBoardFull ub = Inr full" using isBoardFull_spec[OF e(2)] by blast
  have e3: "explosion s nb p base t res = Inr (cs, ub, s0)"
    using e(3) by (simp add: cs_def s0_def)
  have pt: "processTurn cl s nb r c p hc base t =
      (if fst cs \<ge> 200 \<and> fst cs - snd cs \<ge> 100
       then Inr (s1\<lparr>finalResult := Some (Player1, Dominant_win), isGameOver := True\<rparr>)
       else if snd cs \<ge> 200 \<and> snd cs - fst cs \<ge> 100
       then Inr (s1\<lparr>finalResult := Some (Player2, Dominant_win), isGameOver := True\<rparr>)
       else if full
       then Inr (s1\<lparr>finalResult := Some (getGameResult cs ub hc (fst cl)), isGameOver := True\<rparr>)
       else next_turn cl s1 ub p hc cs t)"
    by (simp add: processTurn_def e(1) e3 full s1_def Let_def)
  have s1': "s1 = (case res of None \<Rightarrow> s | Some cells \<Rightarrow> s\<lparr>removedStones := cells\<rparr>)
               \<lparr>scores := cs, board := ub\<rparr>"
    by (simp add: s1_def s0_def)
  show ?thesis
    by (intro exI[of _ res] exI[of _ cs] exI[of _ ub] exI[of _ s1] exI[of _ full] conjI)
       (rule e(1) cs_def e(2) full s1' pt)+
qed

section \<open>Score transfer\<close>

lemma award_seat:
  assumes "seat_color t mover = p"
  shows "seat_score (award p t k base) (other_seat mover) = seat_score base (other_seat mover) + k"
    and "seat_score (award p t k base) mover = seat_score base mover"
  using assms by (cases mover; auto simp: award_def seat_color_def Let_def split: if_splits)+

lemma award_variant_agrees:
  "award p t k base = award_variant p (seat_color t Seat1) k base"
  by (simp add: award_def award_variant_def seat_color_def Let_def)

lemma award_variant_differs:
  "award PLAYER_BLACK 0 5 (0, 0) = (0, 5) \<and> award_variant PLAYER_BLACK PLAYER_WHITE 5 (0, 0) = (5, 0)"
  by (simp add: award_def award_variant_def Let_def)

lemma seat_color_exists: "p \<noteq> EMPTY \<Longrightarrow> \<exists>mover. seat_color t mover = p"
proof -
  assume "p \<noteq> EMPTY"
  then have "seat_color t Seat1 = p \<or> seat_color t Seat2 = p"
    by (cases p) (auto simp: seat_color_def)
  then show ?thesis by blast
qed

lemma processTurn_scores:
  assumes wf: "wf_board nb" and st: "stone nb p r c"
  shows "\<exists>s' res. processTurn cl s nb r c p hc base t = Inr s' \<and> checkLongLines nb r c p = Inr res
    \<and> scores s' = (case res of None \<Rightarrow> base | Some cells \<Rightarrow> award p t (int (length cells)) base)"
proof -
  from processTurn_unfold[OF wf st, where base = base and t = t and s = s and hc = hc and cl = cl]
  obtain res cs ub s1 full where u:
    "checkLongLines nb r c p = Inr res"
    "cs = (case res of None \<Rightarrow> base | Some cells \<Rightarrow> award p t (int (length cells)) base)"
    "wf_board ub"
    "s1 = (case res of None \<Rightarrow> s | Some cells \<Rightarrow> s\<lparr>removedStones := cells\<rparr>)
               \<lparr>scores := cs, board := ub\<rparr>"
    "processTurn cl s nb r c p hc base t =
        (if fst cs \<ge> 200 \<and> fst cs - snd cs \<ge> 100
         then Inr (s1\<lparr>finalResult := Some (Player1, Dominant_win), isGameOver := True\<rparr>)
         else if snd cs \<ge> 200 \<and> snd cs - fst cs \<ge> 100
         then Inr (s1\<lparr>finalResult := Some (Player2, Dominant_win), isGameOver := True\<rparr>)
         else if full
         then Inr (s1\<lparr>finalResult := Some (getGameResult cs ub hc (fst cl)),
                       isGameOver := True\<rparr>)
         else next_turn cl s1 ub p hc cs t)"
    by blast
  have s1: "scores s1 = cs" by (simp add: u(4))
  obtain s2 where s2: "next_turn cl s1 ub p hc cs t = Inr s2" using next_turn_total[OF u(3)] by blast
  have "\<exists>s'. processTurn cl s nb r c p hc base t = Inr s' \<and> scores s' = cs"
    unfolding u(5) using s1 s2 next_turn_fields(1)[OF s2] by simp
  then show ?thesis using u(1,2) by blast
qed

text \<open>
  Claim C2. When the line detection of an applied move returns a removal set of size
  \<open>k\<close>, the seat that holds the mover's colour under the mapping of the turn counter
  before the increment keeps its score, and the other seat's score grows by \<open>k\<close>.
\<close>

theorem score_transfer:
  assumes "wf_board nb" and "stone nb p r c" and "p \<noteq> EMPTY"
    and "checkLongLines nb r c p = Inr (Some cells)"
  shows "\<exists>s'. processTurn cl s nb r c p hc base t = Inr s'
           \<and> (\<exists>mover. seat_color t mover = p)
           \<and> (\<forall>mover. seat_color t mover = p \<longrightarrow>
                 seat_score (scores s') (other_seat mover)
                   = seat_score base (other_seat mover) + int (length cells)
               \<and> seat_score (scores s') mover = seat_score base mover)"
proof -
  from processTurn_scores[OF assms(1,2), where s = s and hc = hc and base = base and t = t and cl = cl] assms(4)
  obtain s' where s': "processTurn cl s nb r c p hc base t = Inr s'"
    "scores s' = award p t (int (length cells)) base" by auto
  show ?thesis using s' seat_color_exists[OF assms(3)] award_seat by auto
qed

theorem score_transfer_witness:
  "wf_board five_board \<and> stone five_board PLAYER_BLACK 7 4 \<and> PLAYER_BLACK \<noteq> EMPTY
   \<and> checkLongLines five_board 7 4 PLAYER_BLACK = Inr (Some [(7, 4), (7, 3), (7, 2), (7, 1), (7, 0)])
   \<and> (\<exists>s'. processTurn (PVE, ''EASY'') initial_session five_board 7 4 PLAYER_BLACK PLAYER_BLACK (0, 0) 8 = Inr s'
           \<and> seat_color 8 Seat1 = PLAYER_BLACK
           \<and> seat_score (scores s') Seat2 = 0 + 5 \<and> seat_score (scores s') Seat1 = 0)"
proof -
  have wf: "wf_board five_board" by code_simp
  have st: "stone five_board PLAYER_BLACK 7 4" by code_simp
  have ne: "PLAYER_BLACK \<noteq> EMPTY" by simp
  have ev: "checkLongLines five_board 7 4 PLAYER_BLACK
              = Inr (Some [(7, 4), (7, 3), (7, 2), (7, 1), (7, 0)])" by code_simp
  have sc: "seat_color 8 Seat1 = PLAYER_BLACK" by (simp add: seat_color_def)
  from score_transfer[OF wf st ne ev, where cl = "(PVE, ''EASY'')" and s = initial_session
      and hc = PLAYER_BLACK and base = "(0, 0)" and t = 8] sc
  show ?thesis using wf st ev by auto
qed

lemma score_transfer_example:
  "map_sum id scores (processTurn (PVE, ''EASY'') initial_session five_board 7 4 PLAYER_BLACK PLAYER_BLACK (0, 0) 8)
     = Inr (0, 5)"
  by code_simp

lemma score_transfer_example_swapped:
  "map_sum id scores (processTurn (PVE, ''EASY'') initial_session five_board 7 4 PLAYER_BLACK PLAYER_WHITE (0, 0) 38)
     = Inr (5, 0)"
  by code_simp

section \<open>Termination checks\<close>

lemma getGameResult_not_dominant: "snd (getGameResult cs b hc m) \<noteq> Dominant_win"
  by (auto simp: getGameResult_def Let_def split: prod.splits)

lemma processTurn_dominant_iff:
  assumes "wf_board nb" and "stone nb p r c" and "\<not> isGameOver s"
  shows "\<exists>s'. processTurn cl s nb r c p hc base t = Inr s'
           \<and> ((isGameOver s' \<and> finalResult s' = Some (Player1, Dominant_win))
                \<longleftrightarrow> (fst (scores s') \<ge> 200 \<and> fst (scores s') - snd (scores s') \<ge> 100))
           \<and> ((isGameOver s' \<and> finalResult s' = Some (Player2, Dominant_win))
                \<longleftrightarrow> (snd (scores s') \<ge> 200 \<and> snd (scores s') - fst (scores s') \<ge> 100))"
proof -
  from processTurn_unfold[OF assms(1,2), where base = base and t = t and s = s and hc = hc and cl = cl]
  obtain res cs ub s1 full where u:
    "wf_board ub"
    "s1 = (case res of None \<Rightarrow> s | Some cells \<Rightarrow> s\<lparr>removedStones := cells\<rparr>)
               \<lparr>scores := cs, board := ub\<rparr>"
    "processTurn cl s nb r c p hc base t =
        (if fst cs \<ge> 200 \<and> fst cs - snd cs \<ge> 100
         then Inr (s1\<lparr>finalResult := Some (Player1, Dominant_win), isGameOver := True\<rparr>)
         else if snd cs \<ge> 200 \<and> snd cs - fst cs \<ge> 100
         then Inr (s1\<lparr>finalResult := Some (Player2, Dominant_win), isGameOver := True\<rparr>)
         else if full
         then Inr (s1\<lparr>finalResult := Some (getGameResult cs ub hc (fst cl)),
                       isGameOver := True\<rparr>)
         else next_turn cl s1 ub p hc cs t)"
    by blast
  have s1: "scores s1 = cs" "isGameOver s1 = isGameOver s"
    by (simp_all add: u(2) split: option.splits)
  obtain s2 where s2: "next_turn cl s1 ub p hc cs t = Inr s2" using next_turn_total[OF u(1)] by blast
  note nf = next_turn_fields(1,3)[OF s2]
  have nd: "getGameResult cs ub hc (fst cl) \<noteq> (w, Dominant_win)" for w
    using getGameResult_not_dominant[of cs ub hc "fst cl"] by auto
  consider (d1) "fst cs \<ge> 200 \<and> fst cs - snd cs \<ge> 100"
    | (d2) "\<not> (fst cs \<ge> 200 \<and> fst cs - snd cs \<ge> 100)" "snd cs \<ge> 200 \<and> snd cs - fst cs \<ge> 100"
    | (f) "\<not> (fst cs \<ge> 200 \<and> fst cs - snd cs \<ge> 100)" "\<not> (snd cs \<ge> 200 \<and> snd cs - fst cs \<ge> 100)" full
    | (n) "\<not> (fst cs \<ge> 200 \<and> fst cs - snd cs \<ge> 100)" "\<not> (snd cs \<ge> 200 \<and> snd cs - fst cs \<ge> 100)" "\<not> full"
    by blast
  then show ?thesis
  proof cases
    case d1
    then show ?thesis unfolding u(3) using s1 by simp
  next
    case d2
    then show ?thesis unfolding u(3) using s1 by simp
  next
    case f
    then show ?thesis unfolding u(3) using s1 nd by simp
  next
    case n
    then show ?thesis unfolding u(3) using s1 s2 nf assms(3) by simp
  qed
qed

text \<open>
  Claim C4. An applied move in a session that is not over ends the session with the
  first seat as winner by dominant win exactly when the first seat's score is at least
  200 and leads by at least 100, and likewise for the second seat; the full board plays
  no part in it, since the check comes first.
\<close>

theorem dominant_win_exactly:
  assumes "wf_board nb" and "stone nb p r c" and "\<not> isGameOver s"
  shows "\<exists>s'. processTurn cl s nb r c p hc base t = Inr s'
           \<and> ((isGameOver s' \<and> finalResult s' = Some (Player1, Dominant_win))
                \<longleftrightarrow> (fst (scores s') \<ge> 200 \<and> fst (scores s') - snd (scores s') \<ge> 100))
           \<and> ((isGameOver s' \<and> finalResult s' = Some (Player2, Dominant_win))
                \<longleftrightarrow> (snd (scores s') \<ge> 200 \<and> snd (scores s') - fst (scores s') \<ge> 100))"
  using assms by (rule processTurn_dominant_iff)

text \<open>
  The theorem at a move that leaves the scores at 200 and 100, a margin of exactly 100:
  the session is over, won by the first seat. At 199 and 0 the session goes on.
\<close>

theorem dominant_win_exactly_witness:
  "wf_board single_stone_board \<and> stone single_stone_board PLAYER_BLACK 7 13
   \<and> \<not> isGameOver initial_session
   \<and> (\<exists>s'. processTurn (PVE, ''EASY'') initial_session single_stone_board 7 13 PLAYER_BLACK PLAYER_BLACK
              (200, 100) 0 = Inr s'
           \<and> scores s' = (200, 100)
           \<and> isGameOver s' \<and> finalResult s' = Some (Player1, Dominant_win))"
proof -
  have wf: "wf_board single_stone_board" by code_simp
  have st: "stone single_stone_board PLAYER_BLACK 7 13" by code_simp
  have ng: "\<not> isGameOver initial_session" by (simp add: initial_session_def)
  have sc: "map_sum id scores (processTurn (PVE, ''EASY'') initial_session single_stone_board 7 13 PLAYER_BLACK
              PLAYER_BLACK (200, 100) 0) = Inr (200, 100)"
    by code_simp
  from dominant_win_exactly[OF wf st ng, where cl = "(PVE, ''EASY'')" and hc = PLAYER_BLACK
      and base = "(200, 100)" and t = 0]
  show ?thesis using wf st ng sc by auto
qed

lemma dominant_199_0_goes_on:
  "map_sum id (\<lambda>s'. (scores s', isGameOver s', finalResult s', turnCount s'))
     (processTurn (PVE, ''EASY'') initial_session single_stone_board 7 13 PLAYER_BLACK PLAYER_BLACK (199, 0) 0)
     = Inr ((199, 0), False, None, 1)"
  by code_simp

text \<open>
  Claim C5 says that a move leaving the scores at 200 and 99 does not end the session.
  It does: the margin is 101.
\<close>

theorem dominant_200_99_counterexample:
  "processTurn (PVE, ''EASY'') initial_session single_stone_board 7 13 PLAYER_BLACK PLAYER_BLACK (200, 99) 0
     = Inr (initial_session\<lparr>scores := (200, 99), board := single_stone_board,
              finalResult := Some (Player1, Dominant_win), isGameOver := True\<rparr>)"
  by code_simp

text \<open>
  Claim C5, amended. A move applied in a session that is not over and leaving one seat
  at 200 and the other at 99 ends the session, won by the seat at 200 by dominant win.
\<close>

theorem dominant_200_99_terminal:
  assumes "wf_board nb" and "stone nb p r c" and "\<not> isGameOver s"
  shows "\<exists>s'. processTurn cl s nb r c p hc base t = Inr s'
          \<and> (scores s' = (200, 99)
                \<longrightarrow> isGameOver s' \<and> finalResult s' = Some (Player1, Dominant_win))
          \<and> (scores s' = (99, 200)
                \<longrightarrow> isGameOver s' \<and> finalResult s' = Some (Player2, Dominant_win))"
proof -
  from processTurn_dominant_iff[OF assms, where hc = hc and base = base and t = t and cl = cl]
  obtain s' where s': "processTurn cl s nb r c p hc base t = Inr s'"
    "(isGameOver s' \<and> finalResult s' = Some (Player1, Dominant_win))
       \<longleftrightarrow> (fst (scores s') \<ge> 200 \<and> fst (scores s') - snd (scores s') \<ge> 100)"
    "(isGameOver s' \<and> finalResult s' = Some (Player2, Dominant_win))
       \<longleftrightarrow> (snd (scores s') \<ge> 200 \<and> snd (scores s') - fst (scores s') \<ge> 100)"
    by blast
  show ?thesis using s' by auto
qed

theorem dominant_200_99_terminal_witness:
  "wf_board single_stone_board \<and> stone single_stone_board PLAYER_BLACK 7 13
   \<and> \<not> isGameOver initial_session
   \<and> (\<exists>s'. processTurn (PVE, ''EASY'') initial_session single_stone_board 7 13 PLAYER_BLACK PLAYER_BLACK
              (200, 99) 0 = Inr s'
           \<and> scores s' = (200, 99)
           \<and> isGameOver s' \<and> finalResult s' = Some (Player1, Dominant_win))"
proof -
  have wf: "wf_board single_stone_board" by code_simp
  have st: "stone single_stone_board PLAYER_BLACK 7 13" by code_simp
  have ng: "\<not> isGameOver initial_session" by (simp add: initial_session_def)
  have sc: "map_sum id scores (processTurn (PVE, ''EASY'') initial_session single_stone_board 7 13 PLAYER_BLACK
              PLAYER_BLACK (200, 99) 0) = Inr (200, 99)"
    by code_simp
  from dominant_200_99_terminal[OF wf st ng, where cl = "(PVE, ''EASY'')" and hc = PLAYER_BLACK
      and base = "(200, 99)" and t = 0]
  show ?thesis using wf st ng sc by auto
qed

section \<open>The verdict on a full board\<close>

lemma count_row:
  "fold (\<lambda>cell (black, white).
             (if cell = PLAYER_BLACK then black + 1 else black,
              if cell = PLAYER_WHITE then white + 1 else white)) row (bk, wh)
     = (bk + int (length (filter (\<lambda>cell. cell = PLAYER_BLACK) row)),
        wh + int (length (filter (\<lambda>cell. cell = PLAYER_WHITE) row)))"
  by (induction row arbitrary: bk wh) auto

lemma count_rows:
  "fold (\<lambda>row. fold (\<lambda>cell (black, white).
             (if cell = PLAYER_BLACK then black + 1 else black,
              if cell = PLAYER_WHITE then white + 1 else white)) row) b (bk, wh)
     = (bk + int (length (filter (\<lambda>cell. cell = PLAYER_BLACK) (concat b))),
        wh + int (length (filter (\<lambda>cell. cell = PLAYER_WHITE) (concat b))))"
  by (induction b arbitrary: bk wh) (auto simp: count_row)

lemma countStones_spec: "countStones b = (stones_of b PLAYER_BLACK, stones_of b PLAYER_WHITE)"
  using count_rows[of b 0 0] by (simp add: countStones_def stones_of_def)

lemma getGameResult_order:
  assumes "hc = PLAYER_BLACK \<or> hc = PLAYER_WHITE"
  shows "getGameResult cs b hc m =
     (if fst cs > snd cs then (Player1, Higher_score)
      else if snd cs > fst cs then (Player2, Higher_score)
      else if stones_of b hc > stones_of b (opposite hc)
      then (Player2, More_stones Player1 (stones_of b hc - stones_of b (opposite hc)))
      else if stones_of b (opposite hc) > stones_of b hc
      then (Player1, More_stones Player2 (stones_of b (opposite hc) - stones_of b hc))
      else (Draw, Score_and_stones_equal))"
  using assms by (auto simp: getGameResult_def Let_def countStones_spec opposite_def)

lemma processTurn_full_board:
  assumes wf: "wf_board nb" and st: "stone nb p r c"
    and res: "processTurn cl s nb r c p hc base t = Inr s'"
    and full: "isBoardFull (board s') = Inr True"
    and nd1: "\<not> (fst (scores s') \<ge> 200 \<and> fst (scores s') - snd (scores s') \<ge> 100)"
    and nd2: "\<not> (snd (scores s') \<ge> 200 \<and> snd (scores s') - fst (scores s') \<ge> 100)"
  shows "isGameOver s' \<and> finalResult s' = Some (getGameResult (scores s') (board s') hc (fst cl))"
proof -
  from processTurn_unfold[OF wf st, where base = base and t = t and s = s and hc = hc and cl = cl]
  obtain res cs ub s1 fl where u:
    "wf_board ub" "isBoardFull ub = Inr fl"
    "s1 = (case res of None \<Rightarrow> s | Some cells \<Rightarrow> s\<lparr>removedStones := cells\<rparr>)
               \<lparr>scores := cs, board := ub\<rparr>"
    "processTurn cl s nb r c p hc base t =
        (if fst cs \<ge> 200 \<and> fst cs - snd cs \<ge> 100
         then Inr (s1\<lparr>finalResult := Some (Player1, Dominant_win), isGameOver := True\<rparr>)
         else if snd cs \<ge> 200 \<and> snd cs - fst cs \<ge> 100
         then Inr (s1\<lparr>finalResult := Some (Player2, Dominant_win), isGameOver := True\<rparr>)
         else if fl
         then Inr (s1\<lparr>finalResult := Some (getGameResult cs ub hc (fst cl)),
                       isGameOver := True\<rparr>)
         else next_turn cl s1 ub p hc cs t)"
    by blast
  have s1: "scores s1 = cs" "board s1 = ub" by (simp_all add: u(3))
  consider (d1) "fst cs \<ge> 200 \<and> fst cs - snd cs \<ge> 100"
    | (d2) "\<not> (fst cs \<ge> 200 \<and> fst cs - snd cs \<ge> 100)" "snd cs \<ge> 200 \<and> snd cs - fst cs \<ge> 100"
    | (f) "\<not> (fst cs \<ge> 200 \<and> fst cs - snd cs \<ge> 100)" "\<not> (snd cs \<ge> 200 \<and> snd cs - fst cs \<ge> 100)" fl
    | (n) "\<not> (fst cs \<ge> 200 \<and> fst cs - snd cs \<ge> 100)" "\<not> (snd cs \<ge> 200 \<and> snd cs - fst cs \<ge> 100)" "\<not> fl"
    by blast
  then show ?thesis
  proof cases
    case d1
    with res u(4) have "s' = s1\<lparr>finalResult := Some (Player1, Dominant_win), isGameOver := True\<rparr>"
      by simp
    with d1 nd1 s1 show ?thesis by simp
  next
    case d2
    with res u(4) have "s' = s1\<lparr>finalResult := Some (Player2, Dominant_win), isGameOver := True\<rparr>"
      by simp
    with d2 nd2 s1 show ?thesis by simp
  next
    case f
    with res u(4) have "s' = s1\<lparr>finalResult := Some (getGameResult cs ub hc (fst cl)),
                       isGameOver := True\<rparr>"
      by simp
    with s1 show ?thesis by simp
  next
    case n
    with res u(4) have nt: "next_turn cl s1 ub p hc cs t = Inr s'" by simp
    from next_turn_fields(2)[OF nt] s1 have "board s' = ub" by simp
    with full u(2) n(3) show ?thesis by simp
  qed
qed

lemma opposite_seat_color: "opposite (seat_color t Seat1) = seat_color t Seat2"
  by (simp add: opposite_def seat_color_def)

text \<open>
  When \<^verbatim>\<open>currentHumanColor\<close> is the first seat's colour at the turn counter, as it is in
  a local or hosting process, the verdict on a full board is the one of claim C6: the
  seat with the higher score; at equal scores the seat with fewer stones of its current
  colour on the final board; at equal scores and equal stones a draw.
\<close>

lemma full_board_verdict_first_seat:
  assumes "wf_board nb" and "stone nb p r c"
    and "hc = seat_color t Seat1"
    and "processTurn cl s nb r c p hc base t = Inr s'"
    and "isBoardFull (board s') = Inr True"
    and "\<not> (fst (scores s') \<ge> 200 \<and> fst (scores s') - snd (scores s') \<ge> 100)"
    and "\<not> (snd (scores s') \<ge> 200 \<and> snd (scores s') - fst (scores s') \<ge> 100)"
  shows "isGameOver s' \<and> (\<exists>w rsn. finalResult s' = Some (w, rsn)
     \<and> (fst (scores s') > snd (scores s') \<longrightarrow> w = Player1 \<and> rsn = Higher_score)
     \<and> (snd (scores s') > fst (scores s') \<longrightarrow> w = Player2 \<and> rsn = Higher_score)
     \<and> (fst (scores s') = snd (scores s')
          \<and> stones_of (board s') (seat_color t Seat1) < stones_of (board s') (seat_color t Seat2)
          \<longrightarrow> w = Player1)
     \<and> (fst (scores s') = snd (scores s')
          \<and> stones_of (board s') (seat_color t Seat2) < stones_of (board s') (seat_color t Seat1)
          \<longrightarrow> w = Player2)
     \<and> (fst (scores s') = snd (scores s')
          \<and> stones_of (board s') (seat_color t Seat1) = stones_of (board s') (seat_color t Seat2)
          \<longrightarrow> w = Draw \<and> rsn = Score_and_stones_equal))"
proof -
  have hc: "hc = PLAYER_BLACK \<or> hc = PLAYER_WHITE"
    using assms(3) by (simp add: seat_color_def)
  from processTurn_full_board[OF assms(1,2,4,5,6,7)]
  have "isGameOver s'"
    "finalResult s' = Some (getGameResult (scores s') (board s') hc (fst cl))" by simp_all
  then show ?thesis
    unfolding getGameResult_order[OF hc] opposite_seat_color[symmetric] assms(3)[symmetric]
    by auto
qed

section \<open>Moves received from the peer\<close>

lemma cell_at_Some_range:
  assumes "cell_at b r c = Inr (Some v)"
  shows "0 \<le> r \<and> r < int (length b) \<and> 0 \<le> c \<and> c < int (length (b ! nat r))"
  using assms by (auto simp: cell_at_def row_at_def split: if_splits)

lemma set_cell_after_read:
  assumes "cell_at b r c = Inr (Some v)"
  shows "set_cell b r c w = Inr (b[nat r := (b ! nat r)[nat c := w]])"
  using cell_at_Some_range[OF assms] by (simp add: set_cell_def row_at_def)

lemma placed_stone:
  assumes wf: "wf_board b" and e: "cell_at b r c = Inr (Some v)"
  shows "\<exists>nb. set_cell b r c w = Inr nb \<and> wf_board nb \<and> stone nb w r c"
proof -
  from cell_at_Some_range[OF e] wf have rng: "0 \<le> r" "r < 15" "0 \<le> c" "c < 15"
    by (auto simp: wf_board_def)
  from set_cell_wf[OF wf rng, of w] obtain nb where nb: "set_cell b r c w = Inr nb" "wf_board nb"
    by blast
  from set_cell_read[OF wf nb(1) rng] have "cell_at nb r c = Inr (Some w)" by simp
  with rng nb show ?thesis by (auto simp: stone_def BOARD_SIZE_def)
qed

text \<open>
  Claim C8. A move received from the peer for a cell that is not empty is dropped: the
  session stays as it is. For an empty cell the handler places the colour that is due
  to move and runs \<open>processTurn\<close> with the current colour, mapping, scores and turn
  counter, as a permitted local click on that cell does; on a 15 by 15 board this
  returns a session.
\<close>

theorem remote_move:
  "(\<forall>v. cell_at (board s) r c = Inr v \<and> v \<noteq> Some EMPTY \<longrightarrow> handleRemoteMove s r c = Inr s)
   \<and> (cell_at (board s) r c = Inr (Some EMPTY) \<longrightarrow>
        (\<exists>nb. set_cell (board s) r c (currentPlayer s) = Inr nb
           \<and> handleRemoteMove s r c
               = processTurn (current_closure s) (s\<lparr>board := nb, lastMove := Some (r, c)\<rparr>) nb r c
                   (currentPlayer s) (humanColor s) (scores s) (turnCount s)
           \<and> (\<not> isGameOver s \<and> \<not> isAiThinking s
                \<and> (gameMode s = PVP \<or> currentPlayer s = humanColor s)
                \<longrightarrow> handleCellClick s r c = handleRemoteMove s r c)
           \<and> (wf_board (board s) \<longrightarrow> (\<exists>s'. handleRemoteMove s r c = Inr s'))))"
proof (intro conjI allI impI)
  fix v assume "cell_at (board s) r c = Inr v \<and> v \<noteq> Some EMPTY"
  then show "handleRemoteMove s r c = Inr s" by (simp add: handleRemoteMove_def)
next
  assume e: "cell_at (board s) r c = Inr (Some EMPTY)"
  let ?nb = "(board s)[nat r := (board s ! nat r)[nat c := currentPlayer s]]"
  have sc: "set_cell (board s) r c (currentPlayer s) = Inr ?nb"
    by (rule set_cell_after_read[OF e])
  have rm: "handleRemoteMove s r c
               = processTurn (current_closure s) (s\<lparr>board := ?nb, lastMove := Some (r, c)\<rparr>) ?nb r c
                   (currentPlayer s) (humanColor s) (scores s) (turnCount s)"
    by (simp add: handleRemoteMove_def e sc)
  have ck: "handleCellClick s r c = handleRemoteMove s r c"
    if "\<not> isGameOver s \<and> \<not> isAiThinking s \<and> (gameMode s = PVP \<or> currentPlayer s = humanColor s)"
    using that by (auto simp: handleCellClick_def handleRemoteMove_def e sc)
  have tot: "\<exists>s'. handleRemoteMove s r c = Inr s'" if wf: "wf_board (board s)"
  proof -
    from placed_stone[OF wf e, of "currentPlayer s"] sc
    have "wf_board ?nb" "stone ?nb (currentPlayer s) r c" by auto
    from processTurn_scores[OF this] show ?thesis unfolding rm by blast
  qed
  show "\<exists>nb. set_cell (board s) r c (currentPlayer s) = Inr nb
           \<and> handleRemoteMove s r c
               = processTurn (current_closure s) (s\<lparr>board := nb, lastMove := Some (r, c)\<rparr>) nb r c
                   (currentPlayer s) (humanColor s) (scores s) (turnCount s)
           \<and> (\<not> isGameOver s \<and> \<not> isAiThinking s
                \<and> (gameMode s = PVP \<or> currentPlayer s = humanColor s)
                \<longrightarrow> handleCellClick s r c = handleRemoteMove s r c)
           \<and> (wf_board (board s) \<longrightarrow> (\<exists>s'. handleRemoteMove s r c = Inr s'))"
    using sc rm ck tot by blast
qed

text \<open>
  The theorem in the host's session after its first move: a received move for the
  occupied cell \<open>(7, 13)\<close> changes nothing, a received move for the empty cell
  \<open>(7, 12)\<close> is applied.
\<close>

theorem remote_move_witness:
  "cell_at (board online_session) 7 13 = Inr (Some PLAYER_BLACK) \<and> Some PLAYER_BLACK \<noteq> Some EMPTY
   \<and> handleRemoteMove online_session 7 13 = Inr online_session
   \<and> cell_at (board online_session) 7 12 = Inr (Some EMPTY)
   \<and> wf_board (board online_session)
   \<and> (\<exists>s'. handleRemoteMove online_session 7 12 = Inr s')"
proof -
  have occ: "cell_at (board online_session) 7 13 = Inr (Some PLAYER_BLACK)" by code_simp
  have emp: "cell_at (board online_session) 7 12 = Inr (Some EMPTY)" by code_simp
  have wf: "wf_board (board online_session)" by code_simp
  from remote_move[of online_session 7 13] remote_move[of online_session 7 12]
  show ?thesis using occ emp wf by auto
qed

lemma remote_move_applied:
  "map_sum id (\<lambda>s'. (cell_at (board s') 7 12, scores s', turnCount s', currentPlayer s',
                      humanColor s', isGameOver s'))
     (handleRemoteMove online_session 7 12)
     = Inr (Inr (Some PLAYER_WHITE), (0, 0), 2, PLAYER_BLACK, PLAYER_BLACK, False)"
  by code_simp

section \<open>Strategy selection\<close>

text \<open>
  Claim C9 says that a difficulty value outside the recognised ones selects the random
  tier. It selects the last branch of the chain instead: with the same board, colour and
  random numbers, \<^verbatim>\<open>'BOGUS'\<close> gives the move of the strong tier and not the move
  that \<^verbatim>\<open>'EASY'\<close> gives, and in the variant with the oracle it gives the oracle's
  cell, here a cell that is no candidate of the random tier at all.
\<close>

theorem invalid_difficulty_counterexample:
  "''BOGUS'' \<notin> {''EASY'', ''MEDIUM'', ''SUPER_STRONG'', ''HARD''}
   \<and> select_move ''EASY'' single_stone_board PLAYER_WHITE half_rnd = Inr (Some (7, 14))
   \<and> select_move ''BOGUS'' single_stone_board PLAYER_WHITE half_rnd = Inr (Some (6, 12))
   \<and> select_move_oracle ''EASY'' (Some (0, 0)) single_stone_board PLAYER_WHITE half_rnd
        = Inr (Some (7, 14))
   \<and> select_move_oracle ''BOGUS'' (Some (0, 0)) single_stone_board PLAYER_WHITE half_rnd
        = Inr (Some (0, 0))"
proof (intro conjI)
  show "''BOGUS'' \<notin> {''EASY'', ''MEDIUM'', ''SUPER_STRONG'', ''HARD''}" by simp
  show "select_move ''EASY'' single_stone_board PLAYER_WHITE half_rnd = Inr (Some (7, 14))"
    by (simp add: select_move_def) code_simp
  show "select_move ''BOGUS'' single_stone_board PLAYER_WHITE half_rnd = Inr (Some (6, 12))"
    by (simp add: select_move_def) code_simp
  show "select_move_oracle ''EASY'' (Some (0, 0)) single_stone_board PLAYER_WHITE half_rnd
        = Inr (Some (7, 14))"
    by (simp add: select_move_oracle_def) code_simp
  have "cell_at single_stone_board 0 0 = Inr (Some EMPTY)" by code_simp
  then show "select_move_oracle ''BOGUS'' (Some (0, 0)) single_stone_board PLAYER_WHITE half_rnd
        = Inr (Some (0, 0))"
    by (simp add: select_move_oracle_def getGeminiMove_def)
qed

text \<open>
  Claim C9, amended. A difficulty value that is not one of the recognised ones selects
  the strong tier in \<^verbatim>\<open>index.tsx\<close>, and the oracle tier, which falls back to the strong
  tier, in the variant with the oracle.
\<close>

theorem invalid_difficulty_dispatch:
  assumes "diff \<notin> {''EASY'', ''MEDIUM'', ''SUPER_STRONG'', ''HARD''}"
  shows "select_move diff b ai rnd = getSuperStrongMove b ai rnd
       \<and> select_move_oracle diff reply b ai rnd = getGeminiMove reply b ai rnd"
  using assms by (simp add: select_move_def select_move_oracle_def)

theorem invalid_difficulty_dispatch_witness:
  "''BOGUS'' \<notin> {''EASY'', ''MEDIUM'', ''SUPER_STRONG'', ''HARD''}
   \<and> select_move ''BOGUS'' single_stone_board PLAYER_WHITE half_rnd
       = getSuperStrongMove single_stone_board PLAYER_WHITE half_rnd
   \<and> select_move_oracle ''BOGUS'' None single_stone_board PLAYER_WHITE half_rnd
       = getGeminiMove None single_stone_board PLAYER_WHITE half_rnd"
proof -
  have ne: "''BOGUS'' \<notin> {''EASY'', ''MEDIUM'', ''SUPER_STRONG'', ''HARD''}" by simp
  have "select_move ''BOGUS'' single_stone_board PLAYER_WHITE half_rnd
       = getSuperStrongMove single_stone_board PLAYER_WHITE half_rnd
   \<and> select_move_oracle ''BOGUS'' None single_stone_board PLAYER_WHITE half_rnd
       = getGeminiMove None single_stone_board PLAYER_WHITE half_rnd"
    by (rule invalid_difficulty_dispatch[OF ne])
  with ne show ?thesis by (rule conjI)
qed

text \<open>
  The difficulty that an automated move uses is the one captured when the mode last
  changed. After \<^verbatim>\<open>MEDIUM\<close> is selected in the initial mode, the move scheduled by the
  next click still carries \<^verbatim>\<open>EASY\<close>; after a change of mode and back it carries
  \<^verbatim>\<open>MEDIUM\<close>.
\<close>

lemma captured_difficulty_example:
  "map_sum id (\<lambda>s. (difficulty s, map fst (aiTimers s)))
     (handleCellClick (resetGame (setDifficulty ''MEDIUM'' initial_session)) 7 13)
     = Inr (''MEDIUM'', [(PVE, ''EASY'')])
   \<and> map_sum id (\<lambda>s. (difficulty s, map fst (aiTimers s)))
     (handleCellClick
        (resetGame (setGameMode PVE (resetGame (setGameMode PVP
           (resetGame (setDifficulty ''MEDIUM'' initial_session)))))) 7 13)
     = Inr (''MEDIUM'', [(PVE, ''MEDIUM'')])"
  by code_simp

section \<open>The seat and colour mapping along the moves\<close>







lemma click_cases:
  assumes "handleCellClick s r c = Inr s'"
  shows "s' = s \<or> (\<not> isAiThinking s
           \<and> (\<exists>nb. processTurn (current_closure s) (s\<lparr>board := nb, lastMove := Some (r, c)\<rparr>)
                      nb r c (currentPlayer s) (humanColor s) (scores s) (turnCount s) = Inr s'
                  \<and> set_cell (board s) r c (currentPlayer s) = Inr nb
                  \<and> cell_at (board s) r c = Inr (Some EMPTY)))"
proof (cases "isGameOver s \<or> isAiThinking s
              \<or> (gameMode s = PVE \<and> currentPlayer s \<noteq> humanColor s)
              \<or> (gameMode s = ONLINE \<and> currentPlayer s \<noteq> humanColor s)")
  case True
  with assms have "s' = s" by (simp add: handleCellClick_def split: if_splits)
  then show ?thesis by simp
next
  case False
  then have c: "\<not> (isGameOver s \<or> isAiThinking s)"
    "\<not> (gameMode s = PVE \<and> currentPlayer s \<noteq> humanColor s)"
    "\<not> (gameMode s = ONLINE \<and> currentPlayer s \<noteq> humanColor s)" by blast+
  have "handleCellClick s r c =
    (case cell_at (board s) r c of
              Inl e \<Rightarrow> Inl e
            | Inr v \<Rightarrow>
                if v \<noteq> Some EMPTY then Inr s
                else (case set_cell (board s) r c (currentPlayer s) of
                        Inl e \<Rightarrow> Inl e
                      | Inr newBoard \<Rightarrow>
                          processTurn (current_closure s)
                            (s\<lparr>board := newBoard, lastMove := Some (r, c)\<rparr>)
                            newBoard r c (currentPlayer s) (humanColor s) (scores s)
                            (turnCount s)))"
    unfolding handleCellClick_def if_not_P[OF c(1)] if_not_P[OF c(2)] if_not_P[OF c(3)] ..
  with assms have "s' = s
      \<or> (\<exists>nb. processTurn (current_closure s) (s\<lparr>board := nb, lastMove := Some (r, c)\<rparr>)
                      nb r c (currentPlayer s) (humanColor s) (scores s) (turnCount s) = Inr s'
                  \<and> set_cell (board s) r c (currentPlayer s) = Inr nb
                  \<and> cell_at (board s) r c = Inr (Some EMPTY))"
    by (auto split: sum.splits if_splits)
  then show ?thesis using c(1) by blast
qed

lemma remote_cases:
  assumes "handleRemoteMove s r c = Inr s'"
  shows "s' = s
         \<or> (\<exists>nb. processTurn (current_closure s) (s\<lparr>board := nb, lastMove := Some (r, c)\<rparr>)
                      nb r c (currentPlayer s) (humanColor s) (scores s) (turnCount s) = Inr s'
                  \<and> set_cell (board s) r c (currentPlayer s) = Inr nb
                  \<and> cell_at (board s) r c = Inr (Some EMPTY))"
  using assms unfolding handleRemoteMove_def by (auto split: sum.splits if_splits)

lemma makeAiMove_cases:
  assumes "makeAiMove s (cl, b, ai, hc, aiScore, humanScore, t) rnd = Inr s'"
  shows "s' = s\<lparr>isGameOver := True\<rparr>
         \<or> (\<exists>mv nextBoard.
               processTurn cl (s\<lparr>board := nextBoard, lastMove := Some mv\<rparr>) nextBoard
                 (fst mv) (snd mv) ai hc (humanScore, aiScore) t = Inr s'
               \<and> set_cell b (fst mv) (snd mv) ai = Inr nextBoard)"
  using assms unfolding makeAiMove_def by (auto split: sum.splits option.splits)







lemma twenty_nine_moves:
  "map_sum id (\<lambda>s. (turnCount s, humanColor s, currentPlayer s))
     (play pvp_start (take 29 all_cells)) = Inr (29, PLAYER_BLACK, PLAYER_WHITE)"
  by code_simp

text \<open>
  The sessions of the amended claim are sessions of a process.
\<close>

lemma steady_reachable: "steady own s \<Longrightarrow> reachable s"
  by (induction rule: steady.induct) (auto intro: reachable.intros)

section \<open>The verdict on a full board in the joined process\<close>




text \<open>
  The same two verdicts from \<open>processTurn\<close> itself, and the full board of one black and
  224 white stones: with the first seat's colour at the counter the first seat, holding
  224 stones, loses; with the other colour it is declared the winner.
\<close>

lemma full_board_verdict_by_color:
  "map_sum id finalResult
     (processTurn (ONLINE, ''EASY'') initial_session crowded_board 7 7 PLAYER_BLACK
        (seat_color 224 Seat1) (0, 0) 224)
     = Inr (Some (Player2, More_stones Player1 223))
   \<and> map_sum id finalResult
     (processTurn (ONLINE, ''EASY'') initial_session crowded_board 7 7 PLAYER_BLACK
        (seat_color 224 Seat2) (0, 0) 224)
     = Inr (Some (Player1, More_stones Player2 223))"
  by code_simp

section \<open>Candidate cells\<close>

lemma neighbor_visit_good:
  assumes wf: "wf_board b"
  shows "nb_good b (neighbor_visit b nr nc)"
  unfolding nb_good_def
proof (intro allI impI)
  fix st :: "coord set \<times> coord list"
  assume inv: "nb_inv b st"
  obtain ns ms where st: "st = (ns, ms)" by (cases st)
  show "\<exists>st'. neighbor_visit b nr nc st = Inr st' \<and> nb_inv b st' \<and> set (snd st) \<subseteq> set (snd st')"
  proof (cases "nr \<ge> 0 \<and> nr < BOARD_SIZE \<and> nc \<ge> 0 \<and> nc < BOARD_SIZE")
    case False
    then have "neighbor_visit b nr nc st = Inr st" by (auto simp: neighbor_visit_def st)
    with inv show ?thesis by auto
  next
    case True
    then have rng: "0 \<le> nr" "nr < 15" "0 \<le> nc" "nc < 15" by (simp_all add: BOARD_SIZE_def)
    note rd = cell_at_wf[OF wf rng]
    show ?thesis
    proof (cases "b ! nat nr ! nat nc = EMPTY \<and> (nr, nc) \<notin> ns")
      case True
      then have "neighbor_visit b nr nc st = Inr (insert (nr, nc) ns, ms @ [(nr, nc)])"
        using \<open>nr \<ge> 0 \<and> nr < BOARD_SIZE \<and> nc \<ge> 0 \<and> nc < BOARD_SIZE\<close> rd
        by (simp add: neighbor_visit_def st)
      moreover have "stone b EMPTY nr nc"
        using True rd \<open>nr \<ge> 0 \<and> nr < BOARD_SIZE \<and> nc \<ge> 0 \<and> nc < BOARD_SIZE\<close>
        by (simp add: stone_def)
      ultimately show ?thesis using inv by (auto simp: nb_inv_def st)
    next
      case False
      then have "neighbor_visit b nr nc st = Inr st"
        using \<open>nr \<ge> 0 \<and> nr < BOARD_SIZE \<and> nc \<ge> 0 \<and> nc < BOARD_SIZE\<close> rd
        by (auto simp: neighbor_visit_def st)
      with inv show ?thesis by auto
    qed
  qed
qed

lemma neighbor_visit_reaches:
  assumes st: "stone b EMPTY nr nc"
  shows "nb_reaches b (nr, nc) (neighbor_visit b nr nc)"
  unfolding nb_reaches_def
proof (intro allI impI)
  fix s s' :: "coord set \<times> coord list"
  assume inv: "nb_inv b s" and r: "neighbor_visit b nr nc s = Inr s'"
  obtain ns ms where s: "s = (ns, ms)" by (cases s)
  from st have rng: "nr \<ge> 0 \<and> nr < BOARD_SIZE \<and> nc \<ge> 0 \<and> nc < BOARD_SIZE"
    and rd: "cell_at b nr nc = Inr (Some EMPTY)" by (auto simp: stone_def)
  show "(nr, nc) \<in> set (snd s')"
  proof (cases "(nr, nc) \<in> ns")
    case True
    with r rng rd have "s' = s" by (simp add: neighbor_visit_def s)
    with True inv show ?thesis by (simp add: nb_inv_def s)
  next
    case False
    with r rng rd have "s' = (insert (nr, nc) ns, ms @ [(nr, nc)])"
      by (simp add: neighbor_visit_def s)
    then show ?thesis by simp
  qed
qed

lemma foldE_good:
  assumes "\<forall>x \<in> set xs. nb_good b (f x)"
  shows "nb_good b (foldE f xs)"
  using assms
proof (induction xs)
  case Nil
  show ?case by (simp add: nb_good_def)
next
  case (Cons x xs)
  then have gx: "nb_good b (f x)" and gxs: "nb_good b (foldE f xs)" by simp_all
  show ?case unfolding nb_good_def
  proof (intro allI impI)
    fix st assume "nb_inv b st"
    with gx obtain s1 where s1: "f x st = Inr s1" "nb_inv b s1" "set (snd st) \<subseteq> set (snd s1)"
      unfolding nb_good_def by blast
    with gxs obtain s2 where s2: "foldE f xs s1 = Inr s2" "nb_inv b s2" "set (snd s1) \<subseteq> set (snd s2)"
      unfolding nb_good_def by blast
    from s1 s2 show "\<exists>st'. foldE f (x # xs) st = Inr st' \<and> nb_inv b st' \<and> set (snd st) \<subseteq> set (snd st')"
      by auto
  qed
qed

lemma foldE_reaches:
  assumes "\<forall>x \<in> set xs. nb_good b (f x)" and "x0 \<in> set xs" and "nb_reaches b t (f x0)"
  shows "nb_reaches b t (foldE f xs)"
  using assms(1,2)
proof (induction xs)
  case Nil
  then show ?case by simp
next
  case (Cons x xs)
  then have gx: "nb_good b (f x)" and gxs: "nb_good b (foldE f xs)"
    by (simp_all add: foldE_good)
  show ?case unfolding nb_reaches_def
  proof (intro allI impI)
    fix st st' assume inv: "nb_inv b st" and r: "foldE f (x # xs) st = Inr st'"
    from gx inv obtain s1 where s1: "f x st = Inr s1" "nb_inv b s1"
      unfolding nb_good_def by blast
    with r have r2: "foldE f xs s1 = Inr st'" by simp
    from gxs s1(2) r2 have mono: "set (snd s1) \<subseteq> set (snd st')"
      unfolding nb_good_def by fastforce
    show "t \<in> set (snd st')"
    proof (cases "x0 = x")
      case True
      with assms(3) inv s1(1) have "t \<in> set (snd s1)" unfolding nb_reaches_def by blast
      with mono show ?thesis by blast
    next
      case False
      with Cons.prems(2) have "x0 \<in> set xs" by simp
      with Cons.IH Cons.prems(1) have "nb_reaches b t (foldE f xs)" by simp
      with s1(2) r2 show ?thesis unfolding nb_reaches_def by blast
    qed
  qed
qed

lemma around_cell_good:
  assumes wf: "wf_board b" and r: "0 \<le> r" "r < 15"
  shows "nb_good b (around_cell b d r c)"
proof -
  from cell_at_row_ok[OF wf r, of c] obtain v where v: "cell_at b r c = Inr v" by blast
  have inner: "nb_good b (foldE (\<lambda>dr. foldE (\<lambda>dc. neighbor_visit b (r + dr) (c + dc)) [- d..d]) [- d..d])"
    by (intro foldE_good ballI neighbor_visit_good[OF wf])
  show ?thesis
  proof (cases "v \<noteq> Some EMPTY")
    case True
    then have "around_cell b d r c = foldE (\<lambda>dr. foldE (\<lambda>dc. neighbor_visit b (r + dr) (c + dc)) [- d..d]) [- d..d]"
      by (intro ext) (simp add: around_cell_def v)
    with inner show ?thesis by simp
  next
    case False
    then have "around_cell b d r c = Inr" by (intro ext) (simp add: around_cell_def v)
    then show ?thesis by (simp add: nb_good_def)
  qed
qed

lemma around_cell_reaches:
  assumes wf: "wf_board b" and r: "0 \<le> r" "r < 15"
    and occ: "cell_at b r c \<noteq> Inr (Some EMPTY)"
    and st: "stone b EMPTY nr nc"
    and near: "\<bar>nr - r\<bar> \<le> d" "\<bar>nc - c\<bar> \<le> d"
  shows "nb_reaches b (nr, nc) (around_cell b d r c)"
proof -
  from cell_at_row_ok[OF wf r, of c] obtain v where v: "cell_at b r c = Inr v" by blast
  with occ have "v \<noteq> Some EMPTY" by simp
  then have eq: "around_cell b d r c = foldE (\<lambda>dr. foldE (\<lambda>dc. neighbor_visit b (r + dr) (c + dc)) [- d..d]) [- d..d]"
    by (intro ext) (simp add: around_cell_def v)
  have dr: "nr - r \<in> set [- d..d]" and dc: "nc - c \<in> set [- d..d]" using near by auto
  have n0: "nb_reaches b (nr, nc) (neighbor_visit b (r + (nr - r)) (c + (nc - c)))"
    using neighbor_visit_reaches[OF st] by simp
  have g1: "\<forall>x \<in> set [- d..d]. nb_good b ((\<lambda>dc. neighbor_visit b (r + (nr - r)) (c + dc)) x)"
    by (intro ballI neighbor_visit_good[OF wf])
  have n1: "nb_reaches b (nr, nc) (foldE (\<lambda>dc. neighbor_visit b (r + (nr - r)) (c + dc)) [- d..d])"
    by (rule foldE_reaches[OF g1 dc]) (rule n0)
  have g2: "\<forall>x \<in> set [- d..d]. nb_good b ((\<lambda>dr. foldE (\<lambda>dc. neighbor_visit b (r + dr) (c + dc)) [- d..d]) x)"
    by (intro ballI foldE_good neighbor_visit_good[OF wf])
  show ?thesis unfolding eq
    by (rule foldE_reaches[OF g2 dr]) (rule n1)
qed

lemma getEmptyNeighbors_collect:
  assumes wf: "wf_board b"
  shows "\<exists>ms. getEmptyNeighbors b d = Inr (if ms = [] then [(7, 7)] else ms)
           \<and> (\<forall>xy \<in> set ms. stone b EMPTY (fst xy) (snd xy))
           \<and> (\<forall>r c nr nc. 0 \<le> r \<and> r < 15 \<and> 0 \<le> c \<and> c < 15
                 \<and> cell_at b r c \<noteq> Inr (Some EMPTY) \<and> stone b EMPTY nr nc
                 \<and> \<bar>nr - r\<bar> \<le> d \<and> \<bar>nc - c\<bar> \<le> d \<longrightarrow> (nr, nc) \<in> set ms)"
proof -
  have bs: "BOARD_SIZE - 1 = 14" "BOARD_SIZE div 2 = 7" by (simp_all add: BOARD_SIZE_def)
  let ?row = "\<lambda>r. foldE (\<lambda>c. around_cell b d r c) [0..14]"
  let ?all = "foldE ?row [0..14]"
  have grow: "\<forall>r \<in> set [0..14]. nb_good b (?row r)"
  proof
    fix r :: int assume "r \<in> set [0..14]"
    then have r: "0 \<le> r" "r < 15" by auto
    show "nb_good b (?row r)" by (intro foldE_good ballI around_cell_good[OF wf r])
  qed
  have gall: "nb_good b ?all" by (rule foldE_good[OF grow])
  have "nb_inv b ({}, [])" by (simp add: nb_inv_def)
  with gall obtain st where st: "?all ({}, []) = Inr st" "nb_inv b st"
    unfolding nb_good_def by blast
  obtain ns ms where nm: "st = (ns, ms)" by (cases st)
  have res: "getEmptyNeighbors b d = Inr (if ms = [] then [(7, 7)] else ms)"
    by (simp add: getEmptyNeighbors_def bs st(1) nm)
  have emp: "\<forall>xy \<in> set ms. stone b EMPTY (fst xy) (snd xy)"
    using st(2) by (simp add: nb_inv_def nm)
  have reach: "(nr, nc) \<in> set ms"
    if h: "0 \<le> r" "r < 15" "0 \<le> c" "c < 15" "cell_at b r c \<noteq> Inr (Some EMPTY)"
      "stone b EMPTY nr nc" "\<bar>nr - r\<bar> \<le> d" "\<bar>nc - c\<bar> \<le> d" for r c nr nc
  proof -
    have rin: "r \<in> set [0..14]" and cin: "c \<in> set [0..14]" using h by auto
    have a: "nb_reaches b (nr, nc) (around_cell b d r c)"
      by (rule around_cell_reaches[OF wf h(1,2,5,6,7,8)])
    have gc: "\<forall>x \<in> set [0..14]. nb_good b ((\<lambda>c. around_cell b d r c) x)"
      by (intro ballI around_cell_good[OF wf h(1,2)])
    have rr: "nb_reaches b (nr, nc) (?row r)"
      by (rule foldE_reaches[OF gc cin]) (rule a)
    have "nb_reaches b (nr, nc) ?all"
      by (rule foldE_reaches[OF grow rin]) (rule rr)
    with st have "(nr, nc) \<in> set (snd st)" unfolding nb_reaches_def
      using \<open>nb_inv b ({}, [])\<close> by blast
    then show ?thesis by (simp add: nm)
  qed
  show ?thesis using res emp reach by blast
qed

lemma int_spread:
  fixes a z :: int
  assumes a: "P a" and step: "\<And>x y. P x \<Longrightarrow> lo \<le> y \<Longrightarrow> y \<le> hi \<Longrightarrow> \<bar>y - x\<bar> \<le> 1 \<Longrightarrow> P y"
    and ra: "lo \<le> a" "a \<le> hi"
  shows "lo \<le> z \<Longrightarrow> z \<le> hi \<Longrightarrow> P z"
proof (induction "nat \<bar>z - a\<bar>" arbitrary: z)
  case 0
  then have "z = a" by simp
  with a show ?case by simp
next
  case (Suc n)
  define y where "y = (if a < z then z - 1 else z + 1)"
  from Suc.hyps(2) have ne: "z \<noteq> a" by auto
  have "n = nat \<bar>y - a\<bar>" using Suc.hyps(2) ne by (auto simp: y_def)
  moreover have "lo \<le> y" "y \<le> hi" using Suc.prems ra ne by (auto simp: y_def)
  ultimately have "P y" using Suc.hyps(1) by blast
  moreover have "\<bar>z - y\<bar> \<le> 1" by (simp add: y_def)
  ultimately show ?case using step Suc.prems by blast
qed

lemma empties_spread:
  assumes wf: "wf_board b"
    and nopair: "\<And>r c nr nc. 0 \<le> r \<Longrightarrow> r < 15 \<Longrightarrow> 0 \<le> c \<Longrightarrow> c < 15
                  \<Longrightarrow> cell_at b r c \<noteq> Inr (Some EMPTY) \<Longrightarrow> stone b EMPTY nr nc
                  \<Longrightarrow> \<bar>nr - r\<bar> \<le> 1 \<Longrightarrow> \<bar>nc - c\<bar> \<le> 1 \<Longrightarrow> False"
    and e0: "stone b EMPTY r0 c0"
    and rng: "0 \<le> r" "r < 15" "0 \<le> c" "c < 15"
  shows "stone b EMPTY r c"
proof -
  have near: "stone b EMPTY y x" if "stone b EMPTY y' x'" "0 \<le> y" "y < 15" "0 \<le> x" "x < 15"
      "\<bar>y' - y\<bar> \<le> 1" "\<bar>x' - x\<bar> \<le> 1" for y x y' x'
  proof (rule ccontr)
    assume "\<not> stone b EMPTY y x"
    with that(2-5) have "cell_at b y x \<noteq> Inr (Some EMPTY)" by (simp add: stone_def BOARD_SIZE_def)
    from nopair[OF that(2-5) this that(1) that(6,7)] show False .
  qed
  from e0 have r0: "0 \<le> r0" "r0 \<le> 14" "0 \<le> c0" "c0 \<le> 14" by (auto simp: stone_def BOARD_SIZE_def)
  have row: "stone b EMPTY r0 c"
  proof (rule int_spread[where P = "\<lambda>x. stone b EMPTY r0 x" and a = c0 and lo = 0 and hi = 14])
    show "stone b EMPTY r0 c0" by (rule e0)
    show "stone b EMPTY r0 y" if "stone b EMPTY r0 x" "0 \<le> y" "y \<le> 14" "\<bar>y - x\<bar> \<le> 1" for x y
      using near[of r0 x r0 y] that r0 by simp
  qed (use r0 rng in auto)
  show ?thesis
  proof (rule int_spread[where P = "\<lambda>y. stone b EMPTY y c" and a = r0 and lo = 0 and hi = 14])
    show "stone b EMPTY r0 c" by (rule row)
    show "stone b EMPTY y c" if "stone b EMPTY x c" "0 \<le> y" "y \<le> 14" "\<bar>y - x\<bar> \<le> 1" for x y
      using near[of x c y c] that rng by simp
  qed (use r0 rng in auto)
qed

lemma candidates_in_range:
  assumes wf: "wf_board b"
  shows "\<exists>moves. getEmptyNeighbors b d = Inr moves \<and> moves \<noteq> []
           \<and> (\<forall>xy \<in> set moves. 0 \<le> fst xy \<and> fst xy < 15 \<and> 0 \<le> snd xy \<and> snd xy < 15)"
proof -
  from getEmptyNeighbors_collect[OF wf, of d]
  obtain ms where ms: "getEmptyNeighbors b d = Inr (if ms = [] then [(7, 7)] else ms)"
    "\<forall>xy \<in> set ms. stone b EMPTY (fst xy) (snd xy)" by blast
  show ?thesis
  proof (cases "ms = []")
    case True
    with ms(1) show ?thesis by simp
  next
    case False
    with ms show ?thesis using stone_in_range by auto
  qed
qed

lemma candidates_empty_cells:
  assumes wf: "wf_board b" and nf: "isBoardFull b = Inr False"
  shows "\<exists>moves. getEmptyNeighbors b 1 = Inr moves \<and> moves \<noteq> []
           \<and> (\<forall>xy \<in> set moves. stone b EMPTY (fst xy) (snd xy))"
proof -
  from getEmptyNeighbors_collect[OF wf, of 1]
  obtain ms where ms: "getEmptyNeighbors b 1 = Inr (if ms = [] then [(7, 7)] else ms)"
    "\<forall>xy \<in> set ms. stone b EMPTY (fst xy) (snd xy)"
    "\<forall>r c nr nc. 0 \<le> r \<and> r < 15 \<and> 0 \<le> c \<and> c < 15
                 \<and> cell_at b r c \<noteq> Inr (Some EMPTY) \<and> stone b EMPTY nr nc
                 \<and> \<bar>nr - r\<bar> \<le> 1 \<and> \<bar>nc - c\<bar> \<le> 1 \<longrightarrow> (nr, nc) \<in> set ms" by blast
  show ?thesis
  proof (cases "ms = []")
    case False
    with ms(1,2) show ?thesis by simp
  next
    case True
    from nf isBoardFull_spec[OF wf] obtain r0 c0 where
      "0 \<le> r0" "r0 < 15" "0 \<le> c0" "c0 < 15" "cell_at b r0 c0 = Inr (Some EMPTY)" by auto
    then have e0: "stone b EMPTY r0 c0" by (simp add: stone_def BOARD_SIZE_def)
    have "stone b EMPTY 7 7"
    proof (rule empties_spread[OF wf _ e0])
      fix r c nr nc :: int
      assume "0 \<le> r" "r < 15" "0 \<le> c" "c < 15" "cell_at b r c \<noteq> Inr (Some EMPTY)"
        "stone b EMPTY nr nc" "\<bar>nr - r\<bar> \<le> 1" "\<bar>nc - c\<bar> \<le> 1"
      with ms(3) have "(nr, nc) \<in> set ms" by blast
      with True show False by simp
    qed simp_all
    with True ms(1) show ?thesis by simp
  qed
qed

section \<open>The strategy tiers on a well-formed board\<close>

lemma foldE_total:
  assumes "\<And>x s. x \<in> set xs \<Longrightarrow> \<exists>s'. f x s = Inr s'"
  shows "\<exists>s'. foldE f xs s = Inr s'"
  using assms
proof (induction xs arbitrary: s)
  case Nil
  show ?case by simp
next
  case (Cons x xs)
  from Cons.prems[of x s] obtain s1 where "f x s = Inr s1" by auto
  moreover from Cons.IH[of s1] Cons.prems obtain s2 where "foldE f xs s1 = Inr s2" by auto
  ultimately show ?case by simp
qed

lemma easy_move_candidate:
  assumes mv: "getEmptyNeighbors b 1 = Inr moves" "moves \<noteq> []"
    and rnd: "0 \<le> rnd 0" "rnd 0 < 1"
  shows "\<exists>m. getEasyMove b ai rnd = Inr (Some m) \<and> m \<in> set moves"
proof -
  let ?n = "length moves"
  let ?i = "\<lfloor>rnd 0 * real ?n\<rfloor>"
  have n: "0 < ?n" using mv(2) by simp
  have "0 \<le> rnd 0 * real ?n" using rnd(1) by simp
  then have lo: "0 \<le> ?i" by simp
  have "rnd 0 * real ?n < real ?n" using rnd(2) n by simp
  then have hi: "?i < int ?n" by (simp add: floor_less_iff)
  have "getEasyMove b ai rnd = Inr (Some (moves ! nat ?i))"
    using mv lo hi by (simp add: getEasyMove_def Let_def)
  moreover have "nat ?i < ?n" using lo hi by (simp add: nat_less_iff)
  then have "moves ! nat ?i \<in> set moves" by (rule nth_mem)
  ultimately show ?thesis by blast
qed

lemma probe_forward_total:
  assumes wf: "wf_board cb"
  shows "\<exists>st'. probe_forward cb p r c d ks st = Inr st'"
proof (induction ks arbitrary: st)
  case Nil
  show ?case by simp
next
  case (Cons k ks)
  obtain ca oe where st: "st = (ca, oe)" by (cases st)
  let ?nr = "r + dx d * k" and ?nc = "c + dy d * k"
  show ?case
  proof (cases "?nr \<ge> 0 \<and> ?nr < 15 \<and> ?nc \<ge> 0 \<and> ?nc < 15")
    case True
    then have rd: "cell_at cb ?nr ?nc = Inr (Some (cb ! nat ?nr ! nat ?nc))"
      by (intro cell_at_wf[OF wf]) simp_all
    have "probe_forward cb p r c d (k # ks) (ca, oe) =
            (if cb ! nat ?nr ! nat ?nc = p then probe_forward cb p r c d ks (ca + 1, oe)
             else if cb ! nat ?nr ! nat ?nc = EMPTY then Inr (ca, oe + 1)
             else Inr (ca, oe))"
      by (simp only: probe_forward.simps if_P[OF True] rd sum.case option.inject)
    then show ?thesis using Cons.IH[of "(ca + 1, oe)"] by (simp add: st)
  next
    case False
    have "probe_forward cb p r c d (k # ks) (ca, oe) = probe_forward cb p r c d ks (ca, oe)"
      by (simp only: probe_forward.simps if_not_P[OF False])
    then show ?thesis using Cons.IH[of "(ca, oe)"] by (simp add: st)
  qed
qed

lemma probe_backward_total:
  assumes wf: "wf_board cb"
  shows "\<exists>st'. probe_backward cb p r c d ks st = Inr st'"
proof (induction ks arbitrary: st)
  case Nil
  show ?case by simp
next
  case (Cons k ks)
  obtain ca oe where st: "st = (ca, oe)" by (cases st)
  let ?nr = "r - dx d * k" and ?nc = "c - dy d * k"
  show ?case
  proof (cases "?nr \<ge> 0 \<and> ?nr < 15 \<and> ?nc \<ge> 0 \<and> ?nc < 15")
    case True
    then have rd: "cell_at cb ?nr ?nc = Inr (Some (cb ! nat ?nr ! nat ?nc))"
      by (intro cell_at_wf[OF wf]) simp_all
    have "probe_backward cb p r c d (k # ks) (ca, oe) =
            (if cb ! nat ?nr ! nat ?nc = p then probe_backward cb p r c d ks (ca + 1, oe)
             else if cb ! nat ?nr ! nat ?nc = EMPTY then Inr (ca, oe + 1)
             else Inr (ca, oe))"
      by (simp only: probe_backward.simps if_P[OF True] rd sum.case option.inject)
    then show ?thesis using Cons.IH[of "(ca + 1, oe)"] by (simp add: st)
  next
    case False
    have "probe_backward cb p r c d (k # ks) (ca, oe) = probe_backward cb p r c d ks (ca, oe)"
      by (simp only: probe_backward.simps if_not_P[OF False])
    then show ?thesis using Cons.IH[of "(ca, oe)"] by (simp add: st)
  qed
qed

lemma evaluate_direction_total:
  assumes wf: "wf_board cb"
  shows "\<exists>s'. evaluate_direction cb p r c d s = Inr s'"
proof -
  from probe_forward_total[OF wf] obtain fw where
    fw: "probe_forward cb p r c d [1, 2, 3, 4] (0, 0) = Inr fw" by blast
  from probe_backward_total[OF wf] obtain ca oe where
    bw: "probe_backward cb p r c d [1, 2, 3, 4] fw = Inr (ca, oe)" by (metis surj_pair)
  show ?thesis unfolding evaluate_direction_def
    by (simp only: fw bw sum.case prod.case) blast
qed

lemma evaluate_total:
  assumes wf: "wf_board cb" and st: "stone cb p r c"
  shows "\<exists>score n'. evaluate r c p cb rnd n = Inr (score, n')"
proof -
  from checkLongLines_result[OF wf st] obtain res where res: "checkLongLines cb r c p = Inr res"
    by blast
  from foldE_total[of directions "evaluate_direction cb p r c" 0] evaluate_direction_total[OF wf]
  obtain sc where sc: "foldE (evaluate_direction cb p r c) directions 0 = Inr sc" by blast
  show ?thesis unfolding evaluate_def res sc by (cases res) simp_all
qed

lemma place_candidate:
  assumes wf: "wf_board b" and rng: "0 \<le> fst m" "fst m < 15" "0 \<le> snd m" "snd m < 15"
  shows "\<exists>tb. set_cell b (fst m) (snd m) ai = Inr tb \<and> wf_board tb \<and> stone tb ai (fst m) (snd m)"
  using placed_stone[OF wf cell_at_wf[OF wf rng]] .

lemma medium_step_total:
  assumes wf: "wf_board b" and rng: "0 \<le> fst m" "fst m < 15" "0 \<le> snd m" "snd m < 15"
  shows "\<exists>bs' bm' n'. medium_step b ai rnd m (bs, bm, n) = Inr (bs', bm', n')
           \<and> (bm' = bm \<or> bm' = Some m)"
proof -
  from place_candidate[OF wf rng] obtain tb where
    tb: "set_cell b (fst m) (snd m) ai = Inr tb" "wf_board tb" "stone tb ai (fst m) (snd m)"
    by blast
  from evaluate_total[OF tb(2,3)] obtain score n' where
    ev: "evaluate (fst m) (snd m) ai tb rnd n = Inr (score, n')" by blast
  show ?thesis unfolding medium_step_def by (simp add: tb(1) ev)
qed

lemma medium_fold:
  assumes wf: "wf_board b"
    and rng: "\<forall>m \<in> set ms. 0 \<le> fst m \<and> fst m < 15 \<and> 0 \<le> snd m \<and> snd m < 15"
  shows "\<exists>bs' bm' n'. foldE (medium_step b ai rnd) ms (bs, bm, n) = Inr (bs', bm', n')
           \<and> (bm' = bm \<or> bm' \<in> Some ` set ms)"
  using rng
proof (induction ms arbitrary: bs bm n)
  case Nil
  show ?case by simp
next
  case (Cons m ms)
  then have "0 \<le> fst m" "fst m < 15" "0 \<le> snd m" "snd m < 15" by simp_all
  from medium_step_total[OF wf this, of ai rnd bs bm n]
  obtain bs1 bm1 n1 where s1: "medium_step b ai rnd m (bs, bm, n) = Inr (bs1, bm1, n1)"
    "bm1 = bm \<or> bm1 = Some m" by blast
  from Cons.IH[of bs1 bm1 n1] Cons.prems
  obtain bs2 bm2 n2 where s2: "foldE (medium_step b ai rnd) ms (bs1, bm1, n1) = Inr (bs2, bm2, n2)"
    "bm2 = bm1 \<or> bm2 \<in> Some ` set ms" by auto
  from s1 s2 show ?case by auto
qed

lemma medium_move_candidate:
  assumes wf: "wf_board b" and mv: "getEmptyNeighbors b 1 = Inr moves" "moves \<noteq> []"
    and rng: "\<forall>m \<in> set moves. 0 \<le> fst m \<and> fst m < 15 \<and> 0 \<le> snd m \<and> snd m < 15"
  shows "\<exists>m. getMediumMove b ai rnd = Inr (Some m) \<and> m \<in> set moves"
proof -
  obtain m0 rest where m0: "moves = m0 # rest" using mv(2) by (cases moves) auto
  from medium_fold[OF wf rng, of ai rnd None "Some m0" 0]
  obtain bs' bm' n' where f: "foldE (medium_step b ai rnd) moves (None, Some m0, 0) = Inr (bs', bm', n')"
    "bm' = Some m0 \<or> bm' \<in> Some ` set moves" by blast
  have "m0 \<in> set moves" using m0 by simp
  with f(2) obtain m where m: "bm' = Some m" "m \<in> set moves" by blast
  have "getMediumMove b ai rnd = Inr bm'"
    unfolding getMediumMove_def mv(1) using f(1) m0 by simp
  with m show ?thesis by blast
qed

lemma strong_candidate_total:
  assumes wf: "wf_board b" and rng: "0 \<le> fst m" "fst m < 15" "0 \<le> snd m" "snd m < 15"
  shows "\<exists>sc. strong_candidate b ai m cands = Inr (cands @ [(m, sc)])"
proof -
  from place_candidate[OF wf rng] obtain tb where
    tb: "set_cell b (fst m) (snd m) ai = Inr tb" "wf_board tb" "stone tb ai (fst m) (snd m)"
    by blast
  from checkLongLines_result[OF tb(2,3)] obtain res where
    res: "checkLongLines tb (fst m) (snd m) ai = Inr res" by blast
  show ?thesis unfolding strong_candidate_def by (cases res) (simp_all add: tb(1) res)
qed

lemma strong_candidates_fold:
  assumes wf: "wf_board b"
    and rng: "\<forall>m \<in> set ms. 0 \<le> fst m \<and> fst m < 15 \<and> 0 \<le> snd m \<and> snd m < 15"
  shows "\<exists>cs. foldE (strong_candidate b ai) ms cands = Inr cs \<and> map fst cs = map fst cands @ ms"
  using rng
proof (induction ms arbitrary: cands)
  case Nil
  show ?case by simp
next
  case (Cons m ms)
  then have "0 \<le> fst m" "fst m < 15" "0 \<le> snd m" "snd m < 15" by simp_all
  from strong_candidate_total[OF wf this, of ai cands]
  obtain sc where sc: "strong_candidate b ai m cands = Inr (cands @ [(m, sc)])" by blast
  from Cons.IH[of "cands @ [(m, sc)]"] Cons.prems
  obtain cs where cs: "foldE (strong_candidate b ai) ms (cands @ [(m, sc)]) = Inr cs"
    "map fst cs = map fst (cands @ [(m, sc)]) @ ms" by auto
  from sc cs show ?case by simp
qed

lemma adjacent_own_total:
  assumes wf: "wf_board tb"
  shows "\<exists>v. adjacent_own tb r' c' ai = Inr v"
proof (cases "r' < 15 \<and> r' \<ge> 0")
  case True
  then obtain v where "cell_at tb r' c' = Inr v" using cell_at_row_ok[OF wf, of r' c'] by auto
  with True show ?thesis by (simp add: adjacent_own_def)
next
  case False
  then show ?thesis by (auto simp: adjacent_own_def)
qed

lemma strong_direction_total:
  assumes wf: "wf_board tb"
  shows "\<exists>s'. strong_direction tb r c ai d s = Inr s'"
proof -
  from adjacent_own_total[OF wf] obtain a where
    a: "adjacent_own tb (r + dx d) (c + dy d) ai = Inr a" by blast
  from adjacent_own_total[OF wf] obtain a' where
    a': "adjacent_own tb (r - dx d) (c - dy d) ai = Inr a'" by blast
  show ?thesis unfolding strong_direction_def by (simp add: a a' Let_def)
qed

lemma liberty_visit_total:
  assumes wf: "wf_board tb"
  shows "\<exists>l'. liberty_visit tb r c dr dc l = Inr l'"
proof (cases "r + dr \<ge> 0 \<and> r + dr < 15 \<and> c + dc \<ge> 0 \<and> c + dc < 15")
  case True
  then have "cell_at tb (r + dr) (c + dc) = Inr (Some (tb ! nat (r + dr) ! nat (c + dc)))"
    by (intro cell_at_wf[OF wf]) simp_all
  then show ?thesis unfolding liberty_visit_def by simp
next
  case False
  then show ?thesis unfolding liberty_visit_def by auto
qed

lemma strong_refine_total:
  assumes wf: "wf_board b"
    and rng: "0 \<le> fst (fst cand)" "fst (fst cand) < 15" "0 \<le> snd (fst cand)" "snd (fst cand) < 15"
  shows "\<exists>sc n'. strong_refine b ai rnd cand (done, n) = Inr (done @ [(fst cand, sc)], n')"
proof (cases "snd cand < - 5000")
  case True
  then have "strong_refine b ai rnd cand (done, n) = Inr (done @ [(fst cand, snd cand)], n)"
    by (simp add: strong_refine_def)
  then show ?thesis by blast
next
  case False
  from place_candidate[OF wf rng] obtain tb where
    tb: "set_cell b (fst (fst cand)) (snd (fst cand)) ai = Inr tb" "wf_board tb" by blast
  from foldE_total[of directions "strong_direction tb (fst (fst cand)) (snd (fst cand)) ai" 0]
    strong_direction_total[OF tb(2)]
  obtain ms where ms: "foldE (strong_direction tb (fst (fst cand)) (snd (fst cand)) ai)
                          directions 0 = Inr ms" by blast
  have inner: "\<exists>l'. foldE (\<lambda>dc. liberty_visit tb (fst (fst cand)) (snd (fst cand)) dr dc) [- 1..1] l
                 = Inr l'" for dr l
    by (rule foldE_total) (rule liberty_visit_total[OF tb(2)])
  from foldE_total[of "[- 1..1]" "\<lambda>dr. foldE (\<lambda>dc. liberty_visit tb
                                        (fst (fst cand)) (snd (fst cand)) dr dc) [- 1..1]" 0] inner
  obtain lb where lb: "foldE (\<lambda>dr. foldE (\<lambda>dc. liberty_visit tb
                                        (fst (fst cand)) (snd (fst cand)) dr dc) [- 1..1])
                               [- 1..1] 0 = Inr lb" by blast
  have "strong_refine b ai rnd cand (done, n)
          = Inr (done @ [(fst cand, snd cand + ((ms + real_of_int lb * 5) + rnd n * 2))], Suc n)"
    unfolding strong_refine_def using False
    by (simp only: prod.case if_False tb(1) ms lb sum.case)
  then show ?thesis by blast
qed

lemma strong_refine_fold:
  assumes wf: "wf_board b"
    and rng: "\<forall>cand \<in> set cands. 0 \<le> fst (fst cand) \<and> fst (fst cand) < 15
                 \<and> 0 \<le> snd (fst cand) \<and> snd (fst cand) < 15"
  shows "\<exists>scored n'. foldE (strong_refine b ai rnd) cands (done, n) = Inr (scored, n')
           \<and> map fst scored = map fst done @ map fst cands"
  using rng
proof (induction cands arbitrary: "done" n)
  case Nil
  show ?case by simp
next
  case (Cons cand cands)
  then have "0 \<le> fst (fst cand)" "fst (fst cand) < 15" "0 \<le> snd (fst cand)" "snd (fst cand) < 15"
    by simp_all
  from strong_refine_total[OF wf this, of ai rnd "done" n]
  obtain sc n1 where s1: "strong_refine b ai rnd cand (done, n) = Inr (done @ [(fst cand, sc)], n1)"
    by blast
  from Cons.IH[of "done @ [(fst cand, sc)]" n1] Cons.prems
  obtain scored n2 where s2:
    "foldE (strong_refine b ai rnd) cands (done @ [(fst cand, sc)], n1) = Inr (scored, n2)"
    "map fst scored = map fst (done @ [(fst cand, sc)]) @ map fst cands" by auto
  from s1 s2 show ?case by simp
qed

lemma strong_move_candidate:
  assumes wf: "wf_board b" and mv: "getEmptyNeighbors b 1 = Inr moves" "moves \<noteq> []"
    and rng: "\<forall>m \<in> set moves. 0 \<le> fst m \<and> fst m < 15 \<and> 0 \<le> snd m \<and> snd m < 15"
  shows "\<exists>m. getSuperStrongMove b ai rnd = Inr (Some m) \<and> m \<in> set moves"
proof -
  from strong_candidates_fold[OF wf rng, of ai "[]"]
  obtain cs where cs: "foldE (strong_candidate b ai) moves [] = Inr cs" "map fst cs = moves"
    by auto
  have crng: "\<forall>cand \<in> set cs. 0 \<le> fst (fst cand) \<and> fst (fst cand) < 15
                 \<and> 0 \<le> snd (fst cand) \<and> snd (fst cand) < 15"
  proof
    fix cand assume "cand \<in> set cs"
    then have "fst cand \<in> set (map fst cs)" by simp
    with cs(2) rng show "0 \<le> fst (fst cand) \<and> fst (fst cand) < 15
                 \<and> 0 \<le> snd (fst cand) \<and> snd (fst cand) < 15" by simp
  qed
  from strong_refine_fold[OF wf crng, of ai rnd "[]" 0]
  obtain scored n' where sc: "foldE (strong_refine b ai rnd) cs ([], 0) = Inr (scored, n')"
    "map fst scored = moves" using cs(2) by auto
  let ?sorted = "sort_key (\<lambda>cand. - snd cand) scored"
  have "scored \<noteq> []" using sc(2) mv(2) by auto
  then have "?sorted \<noteq> []" by (metis length_0_conv length_sort)
  then obtain best rest where br: "?sorted = best # rest" by (cases ?sorted) auto
  have "best \<in> set ?sorted" by (simp add: br)
  then have "best \<in> set scored" by simp
  then have "fst best \<in> set (map fst scored)" by simp
  then have mem: "fst best \<in> set moves" by (simp add: sc(2))
  have "getSuperStrongMove b ai rnd = Inr (Some (fst best))"
    unfolding getSuperStrongMove_def by (simp add: mv(1) cs(1) sc(1) br)
  with mem show ?thesis by blast
qed

text \<open>
  Claim C7 says that every tier returns an empty cell, and signals that there is no
  move on an exhausted board. On a full board every tier returns the centre cell, which
  is occupied: the candidate list falls back to the centre whenever it found no cell.
\<close>

theorem tiers_full_board_counterexample:
  "isBoardFull crowded_board = Inr True
   \<and> cell_at crowded_board 7 7 = Inr (Some PLAYER_BLACK)
   \<and> getEasyMove crowded_board PLAYER_WHITE half_rnd = Inr (Some (7, 7))
   \<and> getMediumMove crowded_board PLAYER_WHITE half_rnd = Inr (Some (7, 7))
   \<and> getSuperStrongMove crowded_board PLAYER_WHITE half_rnd = Inr (Some (7, 7))"
proof (intro conjI)
  show "isBoardFull crowded_board = Inr True" by code_simp
  show "cell_at crowded_board 7 7 = Inr (Some PLAYER_BLACK)" by code_simp
  show "getEasyMove crowded_board PLAYER_WHITE half_rnd = Inr (Some (7, 7))" by code_simp
  show "getMediumMove crowded_board PLAYER_WHITE half_rnd = Inr (Some (7, 7))" by code_simp
  show "getSuperStrongMove crowded_board PLAYER_WHITE half_rnd = Inr (Some (7, 7))" by code_simp
qed

lemma tiers_never_none:
  assumes wf: "wf_board b" and r0: "0 \<le> rnd 0" and r1: "rnd 0 < 1"
  shows "\<exists>m1 m2 m3.
           getEasyMove b ai rnd = Inr (Some m1)
         \<and> getMediumMove b ai rnd = Inr (Some m2)
         \<and> getSuperStrongMove b ai rnd = Inr (Some m3)
         \<and> (isBoardFull b = Inr False \<longrightarrow>
              stone b EMPTY (fst m1) (snd m1) \<and> stone b EMPTY (fst m2) (snd m2)
            \<and> stone b EMPTY (fst m3) (snd m3))"
proof -
  from candidates_in_range[OF wf, of 1]
  obtain moves where mv: "getEmptyNeighbors b 1 = Inr moves" "moves \<noteq> []"
    and rng: "\<forall>m \<in> set moves. 0 \<le> fst m \<and> fst m < 15 \<and> 0 \<le> snd m \<and> snd m < 15"
    by blast
  from easy_move_candidate[where rnd = rnd, OF mv r0 r1]
  obtain m1 where m1: "getEasyMove b ai rnd = Inr (Some m1)" "m1 \<in> set moves" by blast
  from medium_move_candidate[OF wf mv rng]
  obtain m2 where m2: "getMediumMove b ai rnd = Inr (Some m2)" "m2 \<in> set moves" by blast
  from strong_move_candidate[OF wf mv rng]
  obtain m3 where m3: "getSuperStrongMove b ai rnd = Inr (Some m3)" "m3 \<in> set moves" by blast
  have "stone b EMPTY (fst m1) (snd m1) \<and> stone b EMPTY (fst m2) (snd m2)
            \<and> stone b EMPTY (fst m3) (snd m3)" if nf: "isBoardFull b = Inr False"
  proof -
    from candidates_empty_cells[OF wf nf] mv(1)
    have "\<forall>xy \<in> set moves. stone b EMPTY (fst xy) (snd xy)" by auto
    with m1(2) m2(2) m3(2) show ?thesis by blast
  qed
  with m1(1) m2(1) m3(1) show ?thesis by blast
qed

lemma select_move_empty_cell:
  assumes wf: "wf_board b" and nf: "isBoardFull b = Inr False"
    and r0: "0 \<le> rnd 0" and r1: "rnd 0 < 1"
  shows "\<exists>m. select_move diff b ai rnd = Inr (Some m) \<and> stone b EMPTY (fst m) (snd m)"
proof -
  from tiers_never_none[where rnd = rnd and ai = ai, OF wf r0 r1] nf
  obtain m1 m2 m3 where
    "getEasyMove b ai rnd = Inr (Some m1)" "stone b EMPTY (fst m1) (snd m1)"
    "getMediumMove b ai rnd = Inr (Some m2)" "stone b EMPTY (fst m2) (snd m2)"
    "getSuperStrongMove b ai rnd = Inr (Some m3)" "stone b EMPTY (fst m3) (snd m3)"
    by blast
  then show ?thesis unfolding select_move_def by (simp del: split_paired_Ex)
qed

lemma wf_empty_board: "wf_board empty_board"
  by (simp add: wf_board_def empty_board_def BOARD_SIZE_def)

lemma set_cell_placed:
  assumes wf: "wf_board b" and sc: "set_cell b r c w = Inr nb"
  shows "wf_board nb \<and> stone nb w r c"
proof -
  from sc have r: "0 \<le> r" "r < int (length b)" and c: "0 \<le> c" "c < int (length (b ! nat r))"
    by (auto simp: set_cell_def row_at_def split: if_splits)
  from r wf have r15: "r < 15" by (simp add: wf_board_def)
  then have "nat r < length b" using r wf by (simp add: wf_board_def)
  then have "length (b ! nat r) = 15" using wf by (simp add: wf_board_def)
  with c have c15: "c < 15" by simp
  from set_cell_wf[OF wf r(1) r15 c(1) c15, of w] sc have wfn: "wf_board nb" by simp
  from set_cell_read[OF wf sc r(1) r15 c(1) c15] have "cell_at nb r c = Inr (Some w)" by simp
  with wfn r(1) r15 c(1) c15 show ?thesis by (simp add: stone_def BOARD_SIZE_def)
qed

lemma next_turn_timers:
  assumes "next_turn cl s ub p hc cs t = Inr s'"
  shows "board s' = board s
       \<and> (aiTimers s' = aiTimers s
          \<or> (isBoardFull ub = Inr False \<and> (\<exists>call. call_board call = ub
                                              \<and> aiTimers s' = aiTimers s @ [call])))"
  using assms
  by (auto simp: next_turn_def Let_def call_board_def split: if_splits sum.splits)

lemma processTurn_playable:
  assumes wf: "wf_board nb" and st: "stone nb p r c"
    and pt: "processTurn cl s nb r c p hc base t = Inr s'"
    and tm: "\<forall>call \<in> set (aiTimers s).
               wf_board (call_board call) \<and> isBoardFull (call_board call) = Inr False"
  shows "timers_playable s'"
proof -
  from processTurn_unfold[OF wf st, where base = base and t = t and s = s and hc = hc and cl = cl]
  obtain res cs ub s1 full where u:
    "wf_board ub"
    "s1 = (case res of None \<Rightarrow> s | Some cells \<Rightarrow> s\<lparr>removedStones := cells\<rparr>)
               \<lparr>scores := cs, board := ub\<rparr>"
    "processTurn cl s nb r c p hc base t =
        (if fst cs \<ge> 200 \<and> fst cs - snd cs \<ge> 100
         then Inr (s1\<lparr>finalResult := Some (Player1, Dominant_win), isGameOver := True\<rparr>)
         else if snd cs \<ge> 200 \<and> snd cs - fst cs \<ge> 100
         then Inr (s1\<lparr>finalResult := Some (Player2, Dominant_win), isGameOver := True\<rparr>)
         else if full
         then Inr (s1\<lparr>finalResult := Some (getGameResult cs ub hc (fst cl)),
                       isGameOver := True\<rparr>)
         else next_turn cl s1 ub p hc cs t)"
    by blast
  have s1: "board s1 = ub" "aiTimers s1 = aiTimers s"
    by (simp_all add: u(2) split: option.splits)
  have ok1: "timers_playable s1" using s1 u(1) tm by (simp add: timers_playable_def)
  from pt u(3) have "(\<exists>fr. s' = s1\<lparr>finalResult := fr, isGameOver := True\<rparr>)
      \<or> next_turn cl s1 ub p hc cs t = Inr s'"
    by (auto split: if_splits)
  then show ?thesis
  proof
    assume "\<exists>fr. s' = s1\<lparr>finalResult := fr, isGameOver := True\<rparr>"
    then show ?thesis using ok1 by (auto simp: timers_playable_def)
  next
    assume nt: "next_turn cl s1 ub p hc cs t = Inr s'"
    from next_turn_timers[OF nt] u(1) ok1 show ?thesis
      by (auto simp: timers_playable_def)
  qed
qed

lemma reachable_timers_playable: "reachable s \<Longrightarrow> timers_playable s"
proof (induction rule: reachable.induct)
  case start
  show ?case by (simp add: timers_playable_def initial_session_def wf_empty_board)
next
  case (click s r c s')
  from click_cases[OF click.hyps(2)] show ?case
  proof
    assume "s' = s"
    with click.IH show ?thesis by simp
  next
    assume "\<not> isAiThinking s
           \<and> (\<exists>nb. processTurn (current_closure s) (s\<lparr>board := nb, lastMove := Some (r, c)\<rparr>)
                      nb r c (currentPlayer s) (humanColor s) (scores s) (turnCount s) = Inr s'
                  \<and> set_cell (board s) r c (currentPlayer s) = Inr nb
                  \<and> cell_at (board s) r c = Inr (Some EMPTY))"
    then obtain nb where
      pt: "processTurn (current_closure s) (s\<lparr>board := nb, lastMove := Some (r, c)\<rparr>) nb r c
             (currentPlayer s) (humanColor s) (scores s) (turnCount s) = Inr s'"
      and sc: "set_cell (board s) r c (currentPlayer s) = Inr nb"
      by blast
    from click.IH have wf: "wf_board (board s)"
      and tm: "\<forall>call \<in> set (aiTimers (s\<lparr>board := nb, lastMove := Some (r, c)\<rparr>)).
               wf_board (call_board call) \<and> isBoardFull (call_board call) = Inr False"
      by (simp_all add: timers_playable_def)
    from set_cell_placed[OF wf sc] have "wf_board nb" "stone nb (currentPlayer s) r c"
      by simp_all
    then show ?thesis using pt tm by (rule processTurn_playable)
  qed
next
  case (remote s r c s')
  from remote_cases[OF remote.hyps(3)] show ?case
  proof
    assume "s' = s"
    with remote.IH show ?thesis by simp
  next
    assume "\<exists>nb. processTurn (current_closure s) (s\<lparr>board := nb, lastMove := Some (r, c)\<rparr>)
                      nb r c (currentPlayer s) (humanColor s) (scores s) (turnCount s) = Inr s'
                  \<and> set_cell (board s) r c (currentPlayer s) = Inr nb
                  \<and> cell_at (board s) r c = Inr (Some EMPTY)"
    then obtain nb where
      pt: "processTurn (current_closure s) (s\<lparr>board := nb, lastMove := Some (r, c)\<rparr>) nb r c
             (currentPlayer s) (humanColor s) (scores s) (turnCount s) = Inr s'"
      and sc: "set_cell (board s) r c (currentPlayer s) = Inr nb"
      by blast
    from remote.IH have wf: "wf_board (board s)"
      and tm: "\<forall>call \<in> set (aiTimers (s\<lparr>board := nb, lastMove := Some (r, c)\<rparr>)).
               wf_board (call_board call) \<and> isBoardFull (call_board call) = Inr False"
      by (simp_all add: timers_playable_def)
    from set_cell_placed[OF wf sc] have "wf_board nb" "stone nb (currentPlayer s) r c"
      by simp_all
    then show ?thesis using pt tm by (rule processTurn_playable)
  qed
next
  case (timer s rnd s')
  show ?case
  proof (cases "aiTimers s")
    case Nil
    with timer show ?thesis by (simp add: fire_ai_timer_def)
  next
    case (Cons call rest)
    obtain cl b ai hc aiScore humanScore t where
      call: "call = (cl, b, ai, hc, aiScore, humanScore, t)" by (cases call) auto
    from timer.IH Cons call have wfb: "wf_board b"
      and rest: "\<forall>call \<in> set rest.
               wf_board (call_board call) \<and> isBoardFull (call_board call) = Inr False"
      and wfs: "wf_board (board s)"
      by (simp_all add: timers_playable_def call_board_def)
    let ?s0 = "s\<lparr>aiTimers := rest\<rparr>"
    from timer.hyps(2) Cons call
    have mk: "makeAiMove ?s0 (cl, b, ai, hc, aiScore, humanScore, t) rnd = Inr s'"
      by (simp add: fire_ai_timer_def)
    from makeAiMove_cases[OF mk] show ?thesis
    proof
      assume "s' = ?s0\<lparr>isGameOver := True\<rparr>"
      then show ?thesis using rest wfs by (simp add: timers_playable_def)
    next
      assume "\<exists>mv nextBoard.
               processTurn cl (?s0\<lparr>board := nextBoard, lastMove := Some mv\<rparr>) nextBoard
                 (fst mv) (snd mv) ai hc (humanScore, aiScore) t = Inr s'
               \<and> set_cell b (fst mv) (snd mv) ai = Inr nextBoard"
      then obtain mv nextBoard where
        pt: "processTurn cl (?s0\<lparr>board := nextBoard, lastMove := Some mv\<rparr>) nextBoard
                 (fst mv) (snd mv) ai hc (humanScore, aiScore) t = Inr s'"
        and sc: "set_cell b (fst mv) (snd mv) ai = Inr nextBoard"
        by blast
      have tm: "\<forall>call \<in> set (aiTimers (?s0\<lparr>board := nextBoard, lastMove := Some mv\<rparr>)).
               wf_board (call_board call) \<and> isBoardFull (call_board call) = Inr False"
        using rest by simp
      from set_cell_placed[OF wfb sc] have "wf_board nextBoard" "stone nextBoard ai (fst mv) (snd mv)"
        by simp_all
      then show ?thesis using pt tm by (rule processTurn_playable)
    qed
  qed
next
  case (reset s)
  then show ?case by (simp add: timers_playable_def resetGame_def wf_empty_board)
next
  case (mode s m)
  then show ?case by (simp add: timers_playable_def setGameMode_def)
next
  case (select s d)
  then show ?case
    by (simp add: timers_playable_def resetGame_def setDifficulty_def wf_empty_board)
next
  case (join s)
  then show ?case by (simp add: timers_playable_def joinOnlineGame_def)
next
  case (host s)
  then show ?case by (simp add: timers_playable_def hostOpen_def)
qed

text \<open>
  Claim C7, amended. On every 15 by 15 board each of the three tiers returns a cell and
  never signals that there is no move; when the board has at least one empty cell, the
  cell returned is empty on that board. This holds of the random tier for every value in
  \<open>[0, 1)\<close> of its random number, of the other two for all random numbers. The
  controller never invokes a tier on an exhausted board: in every session of a process,
  the board of every scheduled automated move is 15 by 15 and has an empty cell, so that
  the tier selected for it returns a cell that is empty on that board.
\<close>

theorem tiers_return_empty_cell:
  assumes "0 \<le> rnd 0" and "rnd 0 < 1"
  shows "(wf_board b \<longrightarrow>
           (\<exists>m1 m2 m3.
               getEasyMove b ai rnd = Inr (Some m1)
             \<and> getMediumMove b ai rnd = Inr (Some m2)
             \<and> getSuperStrongMove b ai rnd = Inr (Some m3)
             \<and> (isBoardFull b = Inr False \<longrightarrow>
                  stone b EMPTY (fst m1) (snd m1) \<and> stone b EMPTY (fst m2) (snd m2)
                \<and> stone b EMPTY (fst m3) (snd m3))))
       \<and> (reachable s \<and> (cl, cb, cai, chc, cas, chs, ct) \<in> set (aiTimers s) \<longrightarrow>
            wf_board cb \<and> isBoardFull cb = Inr False
          \<and> (\<exists>m. select_move (snd cl) cb cai rnd = Inr (Some m)
                 \<and> stone cb EMPTY (fst m) (snd m)))"
proof (intro conjI impI)
  assume "wf_board b"
  then show "\<exists>m1 m2 m3.
               getEasyMove b ai rnd = Inr (Some m1)
             \<and> getMediumMove b ai rnd = Inr (Some m2)
             \<and> getSuperStrongMove b ai rnd = Inr (Some m3)
             \<and> (isBoardFull b = Inr False \<longrightarrow>
                  stone b EMPTY (fst m1) (snd m1) \<and> stone b EMPTY (fst m2) (snd m2)
                \<and> stone b EMPTY (fst m3) (snd m3))"
    using assms by (rule tiers_never_none)
next
  assume a: "reachable s \<and> (cl, cb, cai, chc, cas, chs, ct) \<in> set (aiTimers s)"
  then have "timers_playable s" by (simp add: reachable_timers_playable)
  with a have ok: "wf_board cb" "isBoardFull cb = Inr False"
    by (auto simp: timers_playable_def call_board_def)
  show "wf_board cb" by (rule ok(1))
  show "isBoardFull cb = Inr False" by (rule ok(2))
  show "\<exists>m. select_move (snd cl) cb cai rnd = Inr (Some m) \<and> stone cb EMPTY (fst m) (snd m)"
    by (rule select_move_empty_cell[where rnd = rnd, OF ok assms])
qed

text \<open>
  The theorem on the board with one stone, where the tiers pick three empty cells, and in
  the session after the first click of a game against the machine, which has scheduled
  an automated move on that board.
\<close>

theorem tiers_return_empty_cell_witness:
  "0 \<le> half_rnd 0 \<and> half_rnd 0 < 1
   \<and> wf_board single_stone_board \<and> isBoardFull single_stone_board = Inr False
   \<and> (\<exists>m1 m2 m3.
           getEasyMove single_stone_board PLAYER_WHITE half_rnd = Inr (Some m1)
         \<and> stone single_stone_board EMPTY (fst m1) (snd m1)
         \<and> getMediumMove single_stone_board PLAYER_WHITE half_rnd = Inr (Some m2)
         \<and> stone single_stone_board EMPTY (fst m2) (snd m2)
         \<and> getSuperStrongMove single_stone_board PLAYER_WHITE half_rnd = Inr (Some m3)
         \<and> stone single_stone_board EMPTY (fst m3) (snd m3))
   \<and> reachable first_click_session \<and> first_call \<in> set (aiTimers first_click_session)
   \<and> (\<exists>m. select_move ''EASY'' single_stone_board PLAYER_WHITE half_rnd = Inr (Some m)
          \<and> stone single_stone_board EMPTY (fst m) (snd m))"
proof -
  have r0: "0 \<le> half_rnd 0" and r1: "half_rnd 0 < 1" by (simp_all add: half_rnd_def)
  have wf: "wf_board single_stone_board" by code_simp
  have nf: "isBoardFull single_stone_board = Inr False" by code_simp
  have ck: "handleCellClick initial_session 7 13 = Inr first_click_session" by code_simp
  have rc: "reachable first_click_session"
    by (rule reachable.click[OF reachable.start ck])
  have tm: "aiTimers first_click_session = [first_call]" by code_simp
  then have mem: "((PVE, ''EASY''), single_stone_board, PLAYER_WHITE, PLAYER_BLACK, 0, 0, 1)
                    \<in> set (aiTimers first_click_session)"
    by (simp add: first_call_def)
  from tiers_return_empty_cell[where rnd = half_rnd and b = single_stone_board
      and ai = PLAYER_WHITE and s = first_click_session and cl = "(PVE, ''EASY'')"
      and cb = single_stone_board and cai = PLAYER_WHITE and chc = PLAYER_BLACK
      and cas = 0 and chs = 0 and ct = 1, OF r0 r1]
  show ?thesis using r0 r1 wf nf rc mem tm by (simp add: first_call_def) blast
qed

section \<open>The unchecked column of the strong tier\<close>

lemma column_outside_undefined:
  assumes "wf_board tb" "0 \<le> r" "r < 15" "c < 0 \<or> 15 \<le> c"
  shows "cell_at tb r c = Inr None \<and> adjacent_own tb r c ai = Inr False"
proof -
  have "nat r < length tb" using assms by (simp add: wf_board_def)
  then have "length (tb ! nat r) = 15" using assms(1) by (simp add: wf_board_def)
  then have "cell_at tb r c = Inr None"
    using assms by (auto simp: cell_at_def row_at_def wf_board_def)
  then show ?thesis using assms(2,3) by (simp add: adjacent_own_def)
qed

lemma strong_move_in_range:
  assumes wf: "wf_board b"
  shows "\<exists>m. getSuperStrongMove b ai rnd = Inr (Some m)
           \<and> 0 \<le> fst m \<and> fst m < 15 \<and> 0 \<le> snd m \<and> snd m < 15"
proof -
  from candidates_in_range[OF wf, of 1]
  obtain moves where mv: "getEmptyNeighbors b 1 = Inr moves" "moves \<noteq> []"
    and rng: "\<forall>xy \<in> set moves. 0 \<le> fst xy \<and> fst xy < 15 \<and> 0 \<le> snd xy \<and> snd xy < 15"
    by blast
  from strong_move_candidate[OF wf mv rng]
  obtain m where "getSuperStrongMove b ai rnd = Inr (Some m)" "m \<in> set moves" by blast
  with rng show ?thesis by blast
qed

lemma adjacent_own_checked_agrees:
  assumes "wf_board tb"
  shows "adjacent_own tb r c ai = adjacent_own_checked tb r c ai"
proof (cases "0 \<le> r \<and> r < 15 \<and> (c < 0 \<or> 15 \<le> c)")
  case True
  with column_outside_undefined[OF assms, of r c ai] show ?thesis
    by (auto simp: adjacent_own_checked_def)
next
  case False
  then show ?thesis by (auto simp: adjacent_own_def adjacent_own_checked_def)
qed

text \<open>
  Claim C10. The strong tier tests the row of the two neighbours that it reads in each
  direction, and not the column. On the board with the two empty cells \<open>(0, 0)\<close> and
  \<open>(7, 14)\<close> both are candidates. For the candidate \<open>(7, 14)\<close> on the right edge the
  horizontal neighbour ahead is at row 7, which passes the test, and at column 15,
  outside the board; for the candidate \<open>(0, 0)\<close> on the left edge the one behind is at
  column \<open>-1\<close>. The tier reads these cells: on the 15 by 15 board the read at column 15
  gives \<^verbatim>\<open>undefined\<close>, which is not the colour of the automated player, the horizontal
  line of \<open>(7, 14)\<close> counts two stones and the tier returns \<open>(7, 14)\<close>; when the array
  of row 7 holds a white stone at column 15, all cells of the board being the same, the
  line counts three and the tier returns \<open>(0, 0)\<close>. A test of row and column would give
  the same answers on every 15 by 15 board, and another answer at that entry. With the
  read outside the columns modelled as \<^verbatim>\<open>undefined\<close>, the strong tier returns a cell of
  the board on every 15 by 15 board.
\<close>

theorem strong_tier_column_unchecked:
  "getEmptyNeighbors edge_board 1 = Inr [(0, 0), (7, 14)]
   \<and> 7 + dx Horizontal < 15 \<and> 7 + dx Horizontal \<ge> 0 \<and> 14 + dy Horizontal = 15
   \<and> 0 - dx Horizontal < 15 \<and> 0 - dx Horizontal \<ge> 0 \<and> 0 - dy Horizontal = - 1
   \<and> wf_board edge_board \<and> map (take 15) wide_edge_board = edge_board
   \<and> cell_at edge_board 7 15 = Inr None
   \<and> cell_at wide_edge_board 7 15 = Inr (Some PLAYER_WHITE)
   \<and> (case set_cell edge_board 7 14 PLAYER_WHITE of
        Inl e \<Rightarrow> Inl e
      | Inr tempBoard \<Rightarrow> strong_direction tempBoard 7 14 PLAYER_WHITE Horizontal 0) = Inr 10
   \<and> (case set_cell wide_edge_board 7 14 PLAYER_WHITE of
        Inl e \<Rightarrow> Inl e
      | Inr tempBoard \<Rightarrow> strong_direction tempBoard 7 14 PLAYER_WHITE Horizontal 0) = Inr (- 50)
   \<and> getSuperStrongMove edge_board PLAYER_WHITE half_rnd = Inr (Some (7, 14))
   \<and> getSuperStrongMove wide_edge_board PLAYER_WHITE half_rnd = Inr (Some (0, 0))
   \<and> adjacent_own wide_edge_board 7 15 PLAYER_WHITE = Inr True
   \<and> adjacent_own_checked wide_edge_board 7 15 PLAYER_WHITE = Inr False
   \<and> (\<forall>tb r c ai. wf_board tb \<longrightarrow>
          adjacent_own tb r c ai = adjacent_own_checked tb r c ai
        \<and> (0 \<le> r \<and> r < 15 \<and> (c < 0 \<or> 15 \<le> c) \<longrightarrow>
             cell_at tb r c = Inr None \<and> adjacent_own tb r c ai = Inr False))
   \<and> (\<forall>b ai rnd. wf_board b \<longrightarrow>
          (\<exists>m. getSuperStrongMove b ai rnd = Inr (Some m)
             \<and> 0 \<le> fst m \<and> fst m < 15 \<and> 0 \<le> snd m \<and> snd m < 15))"
proof (intro conjI allI impI)
  show "getEmptyNeighbors edge_board 1 = Inr [(0, 0), (7, 14)]" by code_simp
  show "wf_board edge_board" by code_simp
  show "map (take 15) wide_edge_board = edge_board" by code_simp
  show "cell_at edge_board 7 15 = Inr None" by code_simp
  show "cell_at wide_edge_board 7 15 = Inr (Some PLAYER_WHITE)" by code_simp
  show "(case set_cell edge_board 7 14 PLAYER_WHITE of
        Inl e \<Rightarrow> Inl e
      | Inr tempBoard \<Rightarrow> strong_direction tempBoard 7 14 PLAYER_WHITE Horizontal 0) = Inr 10"
    by code_simp
  show "(case set_cell wide_edge_board 7 14 PLAYER_WHITE of
        Inl e \<Rightarrow> Inl e
      | Inr tempBoard \<Rightarrow> strong_direction tempBoard 7 14 PLAYER_WHITE Horizontal 0) = Inr (- 50)"
    by code_simp
  show "getSuperStrongMove edge_board PLAYER_WHITE half_rnd = Inr (Some (7, 14))" by code_simp
  show "getSuperStrongMove wide_edge_board PLAYER_WHITE half_rnd = Inr (Some (0, 0))"
    by code_simp
  show "adjacent_own wide_edge_board 7 15 PLAYER_WHITE = Inr True" by code_simp
  show "adjacent_own_checked wide_edge_board 7 15 PLAYER_WHITE = Inr False" by code_simp
next
  fix tb :: BoardState and r c :: int and ai :: CellValue
  assume wf: "wf_board tb"
  show "adjacent_own tb r c ai = adjacent_own_checked tb r c ai"
    by (rule adjacent_own_checked_agrees[OF wf])
  assume "0 \<le> r \<and> r < 15 \<and> (c < 0 \<or> 15 \<le> c)"
  then have "cell_at tb r c = Inr None \<and> adjacent_own tb r c ai = Inr False"
    using column_outside_undefined[OF wf, of r c ai] by blast
  then show "cell_at tb r c = Inr None" "adjacent_own tb r c ai = Inr False" by simp_all
next
  fix b ai rnd assume "wf_board b"
  then show "\<exists>m. getSuperStrongMove b ai rnd = Inr (Some m)
             \<and> 0 \<le> fst m \<and> fst m < 15 \<and> 0 \<le> snd m \<and> snd m < 15"
    by (rule strong_move_in_range)
qed simp_all

text \<open>
  The theorem on the board with the two empty cells: the strong tier returns a cell of
  the board, and the read at column 15 of row 7 is not the colour of the automated
  player, with the column checked or not.
\<close>

theorem strong_tier_column_unchecked_witness:
  "wf_board edge_board
   \<and> (0::int) \<le> 7 \<and> (7::int) < 15 \<and> ((15::int) < 0 \<or> (15::int) \<le> 15)
   \<and> adjacent_own edge_board 7 15 PLAYER_WHITE = adjacent_own_checked edge_board 7 15 PLAYER_WHITE
   \<and> cell_at edge_board 7 15 = Inr None \<and> adjacent_own edge_board 7 15 PLAYER_WHITE = Inr False
   \<and> (\<exists>m. getSuperStrongMove edge_board PLAYER_WHITE half_rnd = Inr (Some m)
          \<and> 0 \<le> fst m \<and> fst m < 15 \<and> 0 \<le> snd m \<and> snd m < 15)"
proof -
  note whole = strong_tier_column_unchecked
  from whole have wf: "wf_board edge_board" by (elim conjE)
  from whole have a: "\<forall>tb r c ai. wf_board tb \<longrightarrow>
          adjacent_own tb r c ai = adjacent_own_checked tb r c ai
        \<and> (0 \<le> r \<and> r < 15 \<and> (c < 0 \<or> 15 \<le> c) \<longrightarrow>
             cell_at tb r c = Inr None \<and> adjacent_own tb r c ai = Inr False)"
    by (elim conjE)
  from whole have t: "\<forall>b ai rnd. wf_board b \<longrightarrow>
          (\<exists>m. getSuperStrongMove b ai rnd = Inr (Some m)
             \<and> 0 \<le> fst m \<and> fst m < 15 \<and> 0 \<le> snd m \<and> snd m < 15)"
    by (elim conjE)
  have ar: "(0::int) \<le> 7 \<and> (7::int) < 15 \<and> ((15::int) < 0 \<or> (15::int) \<le> 15)" by simp
  from a wf have a1: "adjacent_own edge_board 7 15 PLAYER_WHITE
        = adjacent_own_checked edge_board 7 15 PLAYER_WHITE"
    by blast
  from a wf ar have a2: "cell_at edge_board 7 15 = Inr None
         \<and> adjacent_own edge_board 7 15 PLAYER_WHITE = Inr False"
    by blast
  from t wf have a3: "\<exists>m. getSuperStrongMove edge_board PLAYER_WHITE half_rnd = Inr (Some m)
          \<and> 0 \<le> fst m \<and> fst m < 15 \<and> 0 \<le> snd m \<and> snd m < 15"
    by blast
  show ?thesis using wf ar a1 a2 a3 by blast
qed

lemma strong_tier_edge_example:
  "getSuperStrongMove single_stone_board PLAYER_WHITE half_rnd = Inr (Some (6, 12))"
  by code_simp

end
